theory Spec2Isabelle
  imports Complex_Main
begin

section \<open>JavaScript strings and JSON values\<close>

text \<open>
  A JavaScript string is a sequence of UTF-16 code units. The regular expressions of
  \<^verbatim>\<open>extractJSON\<close> carry no \<^verbatim>\<open>u\<close> flag and \<^verbatim>\<open>JSON.parse\<close>,
  \<^verbatim>\<open>String.prototype.trim\<close> and \<^verbatim>\<open>String.prototype.includes\<close> all work
  on code units, so a string is modelled as the list of its code units (natural numbers).
  \<open>js\<close> turns an ASCII literal of the source into that list.
\<close>

type_synonym jsstring = "nat list"

definition js :: "string \<Rightarrow> jsstring" where
  "js s = map of_char s"

text \<open>
  The values \<^verbatim>\<open>JSON.parse\<close> can produce. A number is kept as the exact rational
  value of its literal (the source never computes with parsed numbers; only their
  truthiness is observed, see \<open>truthy\<close>). An object is the list of its members in
  the order in which the properties were created.
\<close>

datatype json =
    JNull
  | JBool bool
  | JNumber rat
  | JString jsstring
  | JArray "json list"
  | JObject "(jsstring \<times> json) list"

text \<open>
  JavaScript truthiness (\<^verbatim>\<open>if (x)\<close>, \<^verbatim>\<open>!x\<close>, \<^verbatim>\<open>a || b\<close>) of such a value:
  \<^verbatim>\<open>null\<close>, \<^verbatim>\<open>false\<close>, the empty string and the number zero are falsy. A number
  literal denotes the double nearest to its value (ties to even), which is zero exactly when the
  magnitude is at most \<open>2 ^ -1075\<close>, half the smallest subnormal.
\<close>

fun truthy :: "json \<Rightarrow> bool" where
  "truthy JNull = False"
| "truthy (JBool b) = b"
| "truthy (JNumber r) = (1 / 2 ^ 1075 < \<bar>r\<bar>)"
| "truthy (JString s) = (s \<noteq> [])"
| "truthy (JArray _) = True"
| "truthy (JObject _) = True"

section \<open>JSON.parse\<close>

text \<open>
  \<^verbatim>\<open>JSON.parse\<close> is the built-in of the language; it is modelled after the JSON grammar
  of ECMA-404 / ECMA-262 (24.5.1): insignificant white space is tab, line feed, carriage return
  and space; a value is an object, an array, a string, a number or one of the three literals.
  \<open>None\<close> stands for the \<^verbatim>\<open>SyntaxError\<close> it throws.
\<close>

definition is_json_ws :: "nat \<Rightarrow> bool" where
  "is_json_ws c = (c = 9 \<or> c = 10 \<or> c = 13 \<or> c = 32)"

definition skip_ws :: "jsstring \<Rightarrow> jsstring" where
  "skip_ws s = dropWhile is_json_ws s"

definition is_digit :: "nat \<Rightarrow> bool" where
  "is_digit c = (48 \<le> c \<and> c \<le> 57)"

definition digits_val :: "jsstring \<Rightarrow> nat" where
  "digits_val ds = foldl (\<lambda>a d. 10 * a + (d - 48)) 0 ds"

text \<open>The value of a hexadecimal digit, for the \<^verbatim>\<open>\uXXXX\<close> escape.\<close>

definition hex_val :: "nat \<Rightarrow> nat option" where
  "hex_val c =
     (if 48 \<le> c \<and> c \<le> 57 then Some (c - 48)
      else if 65 \<le> c \<and> c \<le> 70 then Some (c - 55)
      else if 97 \<le> c \<and> c \<le> 102 then Some (c - 87)
      else None)"

definition hex4 :: "jsstring \<Rightarrow> (nat \<times> jsstring) option" where
  "hex4 s =
     (case s of
        a # b # c # d # r \<Rightarrow>
          (case (hex_val a, hex_val b, hex_val c, hex_val d) of
             (Some x, Some y, Some z, Some w) \<Rightarrow> Some (4096 * x + 256 * y + 16 * z + w, r)
           | _ \<Rightarrow> None)
      | _ \<Rightarrow> None)"

text \<open>The single-character escapes of a JSON string: the code unit an escape letter denotes.\<close>

definition unescape :: "nat \<Rightarrow> nat option" where
  "unescape e =
     (if e = 34 then Some 34
      else if e = 92 then Some 92
      else if e = 47 then Some 47
      else if e = 98 then Some 8
      else if e = 102 then Some 12
      else if e = 110 then Some 10
      else if e = 114 then Some 13
      else if e = 116 then Some 9
      else None)"

text \<open>
  The characters of a string after its opening quote, up to the closing quote: the decoded
  contents and the rest of the input. Code units below 32 may not appear unescaped.
\<close>

function parse_chars :: "jsstring \<Rightarrow> (jsstring \<times> jsstring) option" where
  "parse_chars [] = None"
| "parse_chars (c # cs) =
     (if c = 34 then Some ([], cs)
      else if c = 92 then
        (case cs of
           [] \<Rightarrow> None
         | e # es \<Rightarrow>
             if e = 117 then
               (case hex4 es of
                  None \<Rightarrow> None
                | Some (n, r) \<Rightarrow>
                    if length r < length es then
                      (case parse_chars r of
                         None \<Rightarrow> None
                       | Some (str, r') \<Rightarrow> Some (n # str, r'))
                    else None)
             else
               (case unescape e of
                  None \<Rightarrow> None
                | Some d \<Rightarrow>
                    (case parse_chars es of
                       None \<Rightarrow> None
                     | Some (str, r') \<Rightarrow> Some (d # str, r'))))
      else if c < 32 then None
      else
        (case parse_chars cs of
           None \<Rightarrow> None
         | Some (str, r') \<Rightarrow> Some (c # str, r')))"
  by pat_completeness auto
termination
  by (relation "measure length") auto

text \<open>
  A number: an optional minus sign, an integer part without superfluous leading zero, an
  optional fraction and an optional exponent. The result is the exact value of the literal.
\<close>

definition parse_exp :: "jsstring \<Rightarrow> (int \<times> jsstring) option" where
  "parse_exp s =
     (case s of
        [] \<Rightarrow> Some (0, s)
      | c # cs \<Rightarrow>
          if c = 101 \<or> c = 69 then
            (let (neg, t) =
                   (case cs of
                      [] \<Rightarrow> (False, cs)
                    | d # ds \<Rightarrow> if d = 45 then (True, ds) else if d = 43 then (False, ds)
                               else (False, cs));
                 ds = takeWhile is_digit t
             in if ds = [] then None
                else Some (if neg then - int (digits_val ds) else int (digits_val ds),
                           dropWhile is_digit t))
          else Some (0, s))"

definition parse_frac :: "jsstring \<Rightarrow> (rat \<times> jsstring) option" where
  "parse_frac s =
     (case s of
        [] \<Rightarrow> Some (0, s)
      | c # cs \<Rightarrow>
          if c = 46 then
            (let ds = takeWhile is_digit cs
             in if ds = [] then None
                else Some (of_nat (digits_val ds) / 10 ^ length ds, dropWhile is_digit cs))
          else Some (0, s))"

definition parse_int_part :: "jsstring \<Rightarrow> (nat \<times> jsstring) option" where
  "parse_int_part s =
     (case s of
        [] \<Rightarrow> None
      | c # cs \<Rightarrow>
          if c = 48 then Some (0, cs)
          else if is_digit c then Some (digits_val (takeWhile is_digit s), dropWhile is_digit s)
          else None)"

definition scale :: "rat \<Rightarrow> int \<Rightarrow> rat" where
  "scale r e = (if 0 \<le> e then r * 10 ^ nat e else r / 10 ^ nat (- e))"

definition parse_number :: "jsstring \<Rightarrow> (json \<times> jsstring) option" where
  "parse_number s =
     (let (neg, t) = (case s of [] \<Rightarrow> (False, s) | c # cs \<Rightarrow> if c = 45 then (True, cs) else (False, s))
      in case parse_int_part t of
           None \<Rightarrow> None
         | Some (i, r1) \<Rightarrow>
             (case parse_frac r1 of
                None \<Rightarrow> None
              | Some (f, r2) \<Rightarrow>
                  (case parse_exp r2 of
                     None \<Rightarrow> None
                   | Some (e, r3) \<Rightarrow>
                       Some (JNumber (scale ((if neg then - 1 else 1) * (of_nat i + f)) e), r3))))"

text \<open>
  A property written twice in an object keeps the place of its first occurrence and the value
  of its last one (\<^verbatim>\<open>CreateDataProperty\<close> on an existing key).
\<close>

fun obj_put :: "jsstring \<Rightarrow> json \<Rightarrow> (jsstring \<times> json) list \<Rightarrow> (jsstring \<times> json) list" where
  "obj_put k v [] = [(k, v)]"
| "obj_put k v ((k', v') # kvs) = (if k = k' then (k, v) # kvs else (k', v') # obj_put k v kvs)"

definition mk_object :: "(jsstring \<times> json) list \<Rightarrow> json" where
  "mk_object kvs = JObject (foldl (\<lambda>acc (k, v). obj_put k v acc) [] kvs)"

definition starts_with :: "jsstring \<Rightarrow> jsstring \<Rightarrow> bool" where
  "starts_with s p = (take (length p) s = p)"

lemma length_skip_ws: "length (skip_ws s) \<le> length s"
  by (simp add: skip_ws_def length_dropWhile_le)

lemma parse_chars_length: "parse_chars s = Some (str, r) \<Longrightarrow> length r < length s"
proof (induction s arbitrary: str r rule: parse_chars.induct)
  case 1
  then show ?case by simp
next
  case (2 c cs)
  show ?case
  proof (cases "c = 34")
    case True
    with "2.prems" show ?thesis by simp
  next
    case c34: False
    show ?thesis
    proof (cases "c = 92")
      case False
      with c34 "2.prems" "2.IH"(3) show ?thesis
        by (force split: if_splits option.splits)
    next
      case c92: True
      then obtain e es where cs: "cs = e # es"
        using "2.prems" by (cases cs) auto
      show ?thesis
      proof (cases "e = 117")
        case True
        with c34 c92 cs "2.prems" "2.IH"(1) show ?thesis
          by (force split: if_splits option.splits)
      next
        case False
        with c34 c92 cs "2.prems" "2.IH"(2) show ?thesis
          by (force split: if_splits option.splits)
      qed
    qed
  qed
qed

text \<open>
  Values, the elements of an array after its opening bracket and the members of an object
  after its opening brace. Each function is called on input whose leading white space has
  been skipped. A parsed value always consumes input; the test \<open>length r < length s\<close>
  says so where the recursion continues behind a value.
\<close>

function parse_value :: "jsstring \<Rightarrow> (json \<times> jsstring) option"
  and parse_elements :: "jsstring \<Rightarrow> (json list \<times> jsstring) option"
  and parse_members :: "jsstring \<Rightarrow> ((jsstring \<times> json) list \<times> jsstring) option"
where
  "parse_value s =
     (case s of
        [] \<Rightarrow> None
      | c # cs \<Rightarrow>
          if c = 123 then
            (case skip_ws cs of
               [] \<Rightarrow> None
             | d # ds \<Rightarrow>
                 if d = 125 then Some (JObject [], ds)
                 else
                   (case parse_members (skip_ws cs) of
                      None \<Rightarrow> None
                    | Some (kvs, r) \<Rightarrow> Some (mk_object kvs, r)))
          else if c = 91 then
            (case skip_ws cs of
               [] \<Rightarrow> None
             | d # ds \<Rightarrow>
                 if d = 93 then Some (JArray [], ds)
                 else
                   (case parse_elements (skip_ws cs) of
                      None \<Rightarrow> None
                    | Some (vs, r) \<Rightarrow> Some (JArray vs, r)))
          else if c = 34 then
            (case parse_chars cs of
               None \<Rightarrow> None
             | Some (str, r) \<Rightarrow> Some (JString str, r))
          else if starts_with s (js ''true'') then Some (JBool True, drop 4 s)
          else if starts_with s (js ''false'') then Some (JBool False, drop 5 s)
          else if starts_with s (js ''null'') then Some (JNull, drop 4 s)
          else parse_number s)"
| "parse_elements s =
     (case parse_value s of
        None \<Rightarrow> None
      | Some (v, r) \<Rightarrow>
          if length r < length s then
            (case skip_ws r of
               [] \<Rightarrow> None
             | d # ds \<Rightarrow>
                 if d = 44 then
                   (case parse_elements (skip_ws ds) of
                      None \<Rightarrow> None
                    | Some (vs, r') \<Rightarrow> Some (v # vs, r'))
                 else if d = 93 then Some ([v], ds)
                 else None)
          else None)"
| "parse_members s =
     (case s of
        [] \<Rightarrow> None
      | q # cs \<Rightarrow>
          if q = 34 then
            (case parse_chars cs of
               None \<Rightarrow> None
             | Some (k, r) \<Rightarrow>
                 (case skip_ws r of
                    [] \<Rightarrow> None
                  | c # r1 \<Rightarrow>
                      if c = 58 then
                        (case parse_value (skip_ws r1) of
                           None \<Rightarrow> None
                         | Some (v, r2) \<Rightarrow>
                             if length r2 < length s then
                               (case skip_ws r2 of
                                  [] \<Rightarrow> None
                                | d # ds \<Rightarrow>
                                    if d = 44 then
                                      (case parse_members (skip_ws ds) of
                                         None \<Rightarrow> None
                                       | Some (kvs, r') \<Rightarrow> Some ((k, v) # kvs, r'))
                                    else if d = 125 then Some ([(k, v)], ds)
                                    else None)
                             else None)
                      else None))
          else None)"
  by pat_completeness auto

termination
proof (relation "measure (\<lambda>x. case x of Inl s \<Rightarrow> 2 * length s
                                   | Inr (Inl s) \<Rightarrow> 2 * length s + 1
                                   | Inr (Inr s) \<Rightarrow> 2 * length s + 1)", goal_cases)
  case 1
  show ?case by simp
next
  case (2 s c cs d ds)
  have "length (skip_ws cs) \<le> length cs" by (rule length_skip_ws)
  with 2 show ?case by simp
next
  case (3 s c cs d ds)
  have "length (skip_ws cs) \<le> length cs" by (rule length_skip_ws)
  with 3 show ?case by simp
next
  case (4 s)
  show ?case by simp
next
  case (5 s p v r d ds)
  have "length (skip_ws ds) \<le> length ds" by (rule length_skip_ws)
  moreover have "length (skip_ws r) \<le> length r" by (rule length_skip_ws)
  ultimately show ?case using 5 by simp
next
  case (6 s q cs p k r c r1)
  have "length r < length cs" using 6 by (auto dest: parse_chars_length)
  moreover have "length (skip_ws r) \<le> length r" by (rule length_skip_ws)
  moreover have "length (skip_ws r1) \<le> length r1" by (rule length_skip_ws)
  ultimately show ?case using 6 by simp
next
  case (7 s q cs p k r c r1 p' v r2 d ds)
  have "length (skip_ws ds) \<le> length ds" by (rule length_skip_ws)
  moreover have "length (skip_ws r2) \<le> length r2" by (rule length_skip_ws)
  ultimately show ?case using 7 by simp
qed

declare parse_value.simps [simp del] parse_elements.simps [simp del] parse_members.simps [simp del]

text \<open>\<^verbatim>\<open>JSON.parse(text)\<close>: one value, with white space around it and nothing else.\<close>

definition JSON_parse :: "jsstring \<Rightarrow> json option" where
  "JSON_parse text =
     (case parse_value (skip_ws text) of
        None \<Rightarrow> None
      | Some (v, r) \<Rightarrow> if skip_ws r = [] then Some v else None)"

section \<open>Regular expressions of the extractor\<close>

text \<open>
  The three regular expressions of \<^verbatim>\<open>extractJSON\<close> are sequences of: one code unit
  (a literal, the class \<^verbatim>\<open>\s\<close>, or \<^verbatim>\<open>[\s\S]\<close>, any code unit), an optional
  literal (\<^verbatim>\<open>(?:json)?\<close>, \<^verbatim>\<open>\n?\<close>), a greedy or a lazy star of one code
  unit, and the parentheses of capture group 1. They are run by a backtracking matcher
  with the priorities of ECMA-262: a greedy quantifier tries the longer match first, a lazy
  one the shorter, and \<^verbatim>\<open>String.prototype.match\<close> takes the leftmost start.
\<close>

definition is_space :: "nat \<Rightarrow> bool" where
  "is_space c =
     (c = 9 \<or> c = 10 \<or> c = 11 \<or> c = 12 \<or> c = 13 \<or> c = 32 \<or> c = 160 \<or> c = 5760
      \<or> (8192 \<le> c \<and> c \<le> 8202) \<or> c = 8232 \<or> c = 8233 \<or> c = 8239 \<or> c = 8287
      \<or> c = 12288 \<or> c = 65279)"

datatype rx_atom = Ch nat | Space | AnyUnit

fun atom_ok :: "rx_atom \<Rightarrow> nat \<Rightarrow> bool" where
  "atom_ok (Ch a) c = (c = a)"
| "atom_ok Space c = is_space c"
| "atom_ok AnyUnit c = True"

datatype rx_item =
    Atom rx_atom
  | OptLit jsstring
  | StarGreedy rx_atom
  | StarLazy rx_atom
  | GroupOpen
  | GroupClose

text \<open>
  \<open>rx_match items s\<close> matches the whole of \<open>items\<close> at the start of \<open>s\<close>. On success
  it returns the input that was left where group 1 opened and where it closed.
\<close>

fun rx_match :: "rx_item list \<Rightarrow> jsstring \<Rightarrow> (jsstring \<times> jsstring) option" where
  "rx_match [] s = Some ([], [])"
| "rx_match (Atom a # r) [] = None"
| "rx_match (Atom a # r) (c # cs) = (if atom_ok a c then rx_match r cs else None)"
| "rx_match (OptLit l # r) s =
     (case (if starts_with s l then rx_match r (drop (length l) s) else None) of
        Some m \<Rightarrow> Some m
      | None \<Rightarrow> rx_match r s)"
| "rx_match (StarGreedy a # r) [] = rx_match r []"
| "rx_match (StarGreedy a # r) (c # cs) =
     (case (if atom_ok a c then rx_match (StarGreedy a # r) cs else None) of
        Some m \<Rightarrow> Some m
      | None \<Rightarrow> rx_match r (c # cs))"
| "rx_match (StarLazy a # r) [] = rx_match r []"
| "rx_match (StarLazy a # r) (c # cs) =
     (case rx_match r (c # cs) of
        Some m \<Rightarrow> Some m
      | None \<Rightarrow> if atom_ok a c then rx_match (StarLazy a # r) cs else None)"
| "rx_match (GroupOpen # r) s = (case rx_match r s of None \<Rightarrow> None | Some (opn, cls) \<Rightarrow> Some (s, cls))"
| "rx_match (GroupClose # r) s = (case rx_match r s of None \<Rightarrow> None | Some (opn, cls) \<Rightarrow> Some (opn, s))"

fun rx_search :: "rx_item list \<Rightarrow> jsstring \<Rightarrow> (jsstring \<times> jsstring) option" where
  "rx_search items [] = rx_match items []"
| "rx_search items (c # cs) =
     (case rx_match items (c # cs) of
        Some m \<Rightarrow> Some m
      | None \<Rightarrow> rx_search items cs)"

text \<open>\<^verbatim>\<open>text.match(re)\<close>, reduced to what the source reads of it: group 1, or no match.\<close>

definition match_group :: "rx_item list \<Rightarrow> jsstring \<Rightarrow> jsstring option" where
  "match_group items text =
     (case rx_search items text of
        None \<Rightarrow> None
      | Some (opn, cls) \<Rightarrow> Some (take (length opn - length cls) opn))"

text \<open>
  The fence expression \<^verbatim>\<open>/```(?:json)?\s*\n?([\s\S]*?)\n?```/\<close>, with the backtick as
  code unit 96 and the line feed as code unit 10.
\<close>

definition fence_rx :: "rx_item list" where
  "fence_rx =
     [Atom (Ch 96), Atom (Ch 96), Atom (Ch 96), OptLit (js ''json''), StarGreedy Space,
      OptLit [10], GroupOpen, StarLazy AnyUnit, GroupClose, OptLit [10],
      Atom (Ch 96), Atom (Ch 96), Atom (Ch 96)]"

text \<open>\<^verbatim>\<open>/(\{[\s\S]*\})/\<close> and \<^verbatim>\<open>/(\[[\s\S]*\])/\<close>.\<close>

definition brace_rx :: "rx_item list" where
  "brace_rx = [GroupOpen, Atom (Ch 123), StarGreedy AnyUnit, Atom (Ch 125), GroupClose]"

definition bracket_rx :: "rx_item list" where
  "bracket_rx = [GroupOpen, Atom (Ch 91), StarGreedy AnyUnit, Atom (Ch 93), GroupClose]"

text \<open>\<^verbatim>\<open>String.prototype.trim\<close>: white space and line terminators off both ends.\<close>

definition trim :: "jsstring \<Rightarrow> jsstring" where
  "trim s = rev (dropWhile is_space (rev (dropWhile is_space s)))"

section \<open>extractJSON\<close>

text \<open>
  A \<^verbatim>\<open>try { return JSON.parse(x) } catch { }\<close> of the source is a case on \<open>JSON_parse x\<close>:
  the value is returned whatever it is, also when it is falsy. The final \<^verbatim>\<open>return null\<close>
  is \<open>JNull\<close>.
\<close>

definition extractJSON :: "jsstring \<Rightarrow> json" where
  "extractJSON text =
     (case JSON_parse text of
        Some v \<Rightarrow> v
      | None \<Rightarrow>
          (case (case match_group fence_rx text of
                   None \<Rightarrow> None
                 | Some g \<Rightarrow> JSON_parse (trim g)) of
             Some v \<Rightarrow> v
           | None \<Rightarrow>
               (case (case match_group brace_rx text of
                        None \<Rightarrow> None
                      | Some g \<Rightarrow> JSON_parse g) of
                  Some v \<Rightarrow> v
                | None \<Rightarrow>
                    (case (case match_group bracket_rx text of
                             None \<Rightarrow> None
                           | Some g \<Rightarrow> JSON_parse g) of
                       Some v \<Rightarrow> v
                     | None \<Rightarrow> JNull))))"

section \<open>The extractor as the specification words it\<close>

text \<open>
  The five steps of the specification, each written without regular expressions, to be compared
  with \<open>extractJSON\<close>. \<open>at_fence s\<close>: the text \<open>s\<close> begins with three backticks.
  \<open>after_fence\<close>: what follows the first fence delimiter. \<open>before_fence\<close>: what
  precedes the first fence delimiter. \<open>fence_interior\<close>: the inside of the first fenced
  block, without the tag \<^verbatim>\<open>json\<close> and without surrounding white space.
\<close>

definition at_fence :: "jsstring \<Rightarrow> bool" where
  "at_fence s = starts_with s [96, 96, 96]"

fun after_fence :: "jsstring \<Rightarrow> jsstring option" where
  "after_fence [] = None"
| "after_fence (c # cs) = (if at_fence (c # cs) then Some (drop 2 cs) else after_fence cs)"

fun before_fence :: "jsstring \<Rightarrow> jsstring option" where
  "before_fence [] = None"
| "before_fence (c # cs) =
     (if at_fence (c # cs) then Some []
      else (case before_fence cs of None \<Rightarrow> None | Some b \<Rightarrow> Some (c # b)))"

text \<open>\<open>has_fence s\<close>: three backticks in a row occur somewhere in \<open>s\<close>.\<close>

fun has_fence :: "jsstring \<Rightarrow> bool" where
  "has_fence [] = False"
| "has_fence (c # cs) = (at_fence (c # cs) \<or> has_fence cs)"

definition strip_tag :: "jsstring \<Rightarrow> jsstring" where
  "strip_tag s = (if starts_with s (js ''json'') then drop 4 s else s)"

definition fence_interior :: "jsstring \<Rightarrow> jsstring option" where
  "fence_interior text =
     (case after_fence text of
        None \<Rightarrow> None
      | Some x \<Rightarrow> (case before_fence (strip_tag x) of None \<Rightarrow> None | Some b \<Rightarrow> Some (trim b)))"

text \<open>
  \<open>outer_span a b text\<close>: the span from the first \<open>a\<close> of the text to the last \<open>b\<close>
  behind it (the greedy match), if there is one.
\<close>

definition outer_span :: "nat \<Rightarrow> nat \<Rightarrow> jsstring \<Rightarrow> jsstring option" where
  "outer_span a b text =
     (case dropWhile (\<lambda>c. c \<noteq> a) text of
        [] \<Rightarrow> None
      | x # body \<Rightarrow>
          if b \<in> set body then Some (x # rev (dropWhile (\<lambda>c. c \<noteq> b) (rev body))) else None)"

fun first_success :: "json option list \<Rightarrow> json" where
  "first_success [] = JNull"
| "first_success (Some v # rest) = v"
| "first_success (None # rest) = first_success rest"

definition extract_spec :: "jsstring \<Rightarrow> json" where
  "extract_spec text =
     first_success
       [JSON_parse text,
        Option.bind (fence_interior text) JSON_parse,
        Option.bind (outer_span 123 125 text) JSON_parse,
        Option.bind (outer_span 91 93 text) JSON_parse]"

text \<open>
  Auxiliary notions for comparing the regular expressions with the plain definitions:
  the two span expressions as one scheme, the tail of the fence expression from group 1 on,
  and the place where the lazy star of the fence expression stops.
\<close>

definition span_rx :: "nat \<Rightarrow> nat \<Rightarrow> rx_item list" where
  "span_rx a b = [GroupOpen, Atom (Ch a), StarGreedy AnyUnit, Atom (Ch b), GroupClose]"

definition group_rx :: "rx_item list" where
  "group_rx = [GroupOpen, StarLazy AnyUnit, GroupClose, OptLit [10],
               Atom (Ch 96), Atom (Ch 96), Atom (Ch 96)]"

definition fence_stop :: "jsstring \<Rightarrow> bool" where
  "fence_stop s = (at_fence s \<or> (case s of [] \<Rightarrow> False | c # cs \<Rightarrow> c = 10 \<and> at_fence cs))"

fun lazy_stop :: "jsstring \<Rightarrow> jsstring option" where
  "lazy_stop [] = None"
| "lazy_stop (c # cs) = (if fence_stop (c # cs) then Some (c # cs) else lazy_stop cs)"

text \<open>
  \<open>consumed s r\<close>: \<open>r\<close> is what is left of \<open>s\<close> behind a non-empty part that does not end
  with a backtick (as is the case for the input that the parser of a JSON value has read).
\<close>

definition consumed :: "jsstring \<Rightarrow> jsstring \<Rightarrow> bool" where
  "consumed s r = (\<exists>u e. s = u @ e # r \<and> e \<noteq> 96)"

section \<open>Worker identity, roles and backends\<close>

text \<open>
  The configuration object of the worker (\<^verbatim>\<open>config\<close> in the source, the WorkerIdentity of
  the specification) with the fields that \<^verbatim>\<open>cliSetup\<close> and \<^verbatim>\<open>interactiveSetup\<close> create.
  \<^verbatim>\<open>ai_api_key\<close> and \<^verbatim>\<open>api_key\<close> may be a string, \<^verbatim>\<open>null\<close>, or (for
  \<^verbatim>\<open>ai_api_key\<close> after an interactive setup without key) not there at all. The counters are
  JavaScript numbers holding integers; how the loop adds to them is \<open>js_add\<close> below.
\<close>

datatype key_field = KeyAbsent | KeyNull | KeyStr jsstring

record agent_stats =
  completed :: int
  points :: int
  errors :: int

record config =
  name :: jsstring
  owner :: jsstring
  solana_wallet :: jsstring
  role :: jsstring
  model :: jsstring
  model_info :: jsstring
  ai_api_key :: key_field
  agent_id :: jsstring
  api_key :: key_field
  server :: jsstring
  created_at :: jsstring
  stats :: agent_stats

text \<open>\<^verbatim>\<open>ROLES\<close>: difficulty, points per task and label of each role key.\<close>

record role_info =
  difficulty :: jsstring
  role_points :: int
  role_label :: jsstring

definition ROLES :: "jsstring \<Rightarrow> role_info option" where
  "ROLES = map_of
     [(js ''trend_researcher'',
         \<lparr>difficulty = js ''easy'', role_points = 10, role_label = js ''Trend Researcher''\<rparr>),
      (js ''theme_designer'',
         \<lparr>difficulty = js ''medium'', role_points = 15, role_label = js ''Theme Designer''\<rparr>),
      (js ''world_architect'',
         \<lparr>difficulty = js ''hard'', role_points = 25, role_label = js ''World Architect''\<rparr>),
      (js ''quality_reviewer'',
         \<lparr>difficulty = js ''medium'', role_points = 15, role_label = js ''Quality Reviewer''\<rparr>),
      (js ''script_writer'',
         \<lparr>difficulty = js ''hard'', role_points = 30, role_label = js ''Script Writer''\<rparr>),
      (js ''tycoon_architect'',
         \<lparr>difficulty = js ''hard'', role_points = 25, role_label = js ''Tycoon Architect''\<rparr>),
      (js ''simulator_designer'',
         \<lparr>difficulty = js ''hard'', role_points = 25, role_label = js ''Simulator Designer''\<rparr>)]"

text \<open>
  \<^verbatim>\<open>ROLE_PROMPTS\<close> gives each of the seven roles a fixed, non-empty system instruction. The
  instruction texts are opaque payloads; the model keeps which roles have one.
\<close>

definition ROLE_PROMPTS :: "jsstring \<Rightarrow> bool" where
  "ROLE_PROMPTS r =
     (r \<in> set [js ''trend_researcher'', js ''theme_designer'', js ''world_architect'',
               js ''quality_reviewer'', js ''script_writer'', js ''tycoon_architect'',
               js ''simulator_designer''])"

text \<open>
  Property reads on a parsed JSON value. \<open>js_prop k v\<close> is \<^verbatim>\<open>v.k\<close> for the property names
  the source reads (none of which a prototype defines): an own property of an object,
  \<^verbatim>\<open>undefined\<close> (\<open>None\<close>) on everything else. \<open>js_index0 v\<close> is \<^verbatim>\<open>v[0]\<close>.
  \<open>opt_chain\<close> is the optional chaining \<^verbatim>\<open>a?.b\<close>, \<open>or_empty\<close> is \<^verbatim>\<open>x || ""\<close>.
\<close>

fun js_prop :: "jsstring \<Rightarrow> json \<Rightarrow> json option" where
  "js_prop k (JObject kvs) = map_of kvs k"
| "js_prop k _ = None"

fun js_index0 :: "json \<Rightarrow> json option" where
  "js_index0 (JArray []) = None"
| "js_index0 (JArray (x # xs)) = Some x"
| "js_index0 (JString []) = None"
| "js_index0 (JString (c # cs)) = Some (JString [c])"
| "js_index0 (JObject kvs) = map_of kvs (js ''0'')"
| "js_index0 _ = None"

fun opt_chain :: "json option \<Rightarrow> (json \<Rightarrow> json option) \<Rightarrow> json option" where
  "opt_chain None f = None"
| "opt_chain (Some JNull) f = None"
| "opt_chain (Some v) f = f v"

definition or_empty :: "json option \<Rightarrow> json" where
  "or_empty x = (case x of None \<Rightarrow> JString [] | Some v \<Rightarrow> if truthy v then v else JString [])"

text \<open>
  A template literal converts every value it substitutes to a string. For a value that
  \<^verbatim>\<open>JSON.parse\<close> has built, the conversion throws a \<^verbatim>\<open>TypeError\<close> exactly when it
  meets an object with an own property \<^verbatim>\<open>toString\<close>: the property hides
  \<^verbatim>\<open>Object.prototype.toString\<close>, it is data and cannot be called, and \<^verbatim>\<open>valueOf\<close>
  (own and not callable, or inherited and giving back the object) yields no primitive either.
  An array is converted by joining the conversions of its elements; \<^verbatim>\<open>null\<close>, booleans,
  numbers, strings and the other objects convert without an exception. \<open>cannot_convert\<close> is
  the message of the \<^verbatim>\<open>TypeError\<close>.
\<close>

fun ToString_throws :: "json \<Rightarrow> bool" where
  "ToString_throws (JArray xs) = list_ex ToString_throws xs"
| "ToString_throws (JObject kvs) = (map_of kvs (js ''toString'') \<noteq> None)"
| "ToString_throws _ = False"

definition cannot_convert :: jsstring where
  "cannot_convert = js ''Cannot convert object to primitive value''"

text \<open>
  \<^verbatim>\<open>+=\<close> on the counters is the addition of doubles. The counters hold integers, and the
  sum of two integers is exact as long as the operands and the sum lie within \<open>2 ^ 53\<close> of
  zero. Beyond that range a sum may be rounded (\<open>2 ^ 53 + 1\<close> gives \<open>2 ^ 53\<close>); such
  an addition is outside the model (\<open>None\<close>).
\<close>

definition exact_sum :: "int \<Rightarrow> int \<Rightarrow> bool" where
  "exact_sum a b = (\<bar>a\<bar> \<le> 2 ^ 53 \<and> \<bar>b\<bar> \<le> 2 ^ 53 \<and> \<bar>a + b\<bar> \<le> 2 ^ 53)"

definition js_add :: "int \<Rightarrow> int \<Rightarrow> int option" where
  "js_add a b = (if exact_sum a b then Some (a + b) else None)"

text \<open>
  \<^verbatim>\<open>AI_BACKENDS\<close>: label, name of the environment variable holding the credential, and the
  path that pulls the generated text out of the parsed reply. The URL, header and body builders
  shape the outgoing request only and are not modelled.
\<close>

record backend =
  label :: jsstring
  envKey :: jsstring
  extractText :: "json \<Rightarrow> json"

definition gemini_text :: "json \<Rightarrow> json" where
  "gemini_text j =
     or_empty (opt_chain (opt_chain (opt_chain (opt_chain (opt_chain (opt_chain (Some j)
       (js_prop (js ''candidates''))) js_index0) (js_prop (js ''content'')))
       (js_prop (js ''parts''))) js_index0) (js_prop (js ''text'')))"

definition claude_text :: "json \<Rightarrow> json" where
  "claude_text j =
     or_empty (opt_chain (opt_chain (opt_chain (Some j)
       (js_prop (js ''content''))) js_index0) (js_prop (js ''text'')))"

definition chat_text :: "json \<Rightarrow> json" where
  "chat_text j =
     or_empty (opt_chain (opt_chain (opt_chain (opt_chain (Some j)
       (js_prop (js ''choices''))) js_index0) (js_prop (js ''message'')))
       (js_prop (js ''content'')))"

definition AI_BACKENDS :: "jsstring \<Rightarrow> backend option" where
  "AI_BACKENDS = map_of
     [(js ''gemini'',
         \<lparr>label = js ''Google Gemini (free)'', envKey = js ''GEMINI_API_KEY'',
          extractText = gemini_text\<rparr>),
      (js ''claude'',
         \<lparr>label = js ''Anthropic Claude'', envKey = js ''ANTHROPIC_API_KEY'',
          extractText = claude_text\<rparr>),
      (js ''gpt4o'',
         \<lparr>label = js ''OpenAI GPT-4o'', envKey = js ''OPENAI_API_KEY'',
          extractText = chat_text\<rparr>),
      (js ''deepseek'',
         \<lparr>label = js ''DeepSeek'', envKey = js ''DEEPSEEK_API_KEY'',
          extractText = chat_text\<rparr>)]"

definition AI_BACKEND_KEYS :: "jsstring list" where
  "AI_BACKEND_KEYS = [js ''gemini'', js ''claude'', js ''gpt4o'', js ''deepseek'']"

section \<open>JSON.stringify of the configuration, saveConfig and loadConfig\<close>

text \<open>
  \<^verbatim>\<open>QuoteJSONString\<close> (ECMA-262, 25.5.2.3): the two-character escapes, \<^verbatim>\<open>\uXXXX\<close> in
  lower-case hexadecimal for the other control characters and for a surrogate that is not part of
  a pair, every other code unit as it is.
\<close>

definition hex_digit :: "nat \<Rightarrow> nat" where
  "hex_digit d = (if d < 10 then 48 + d else 87 + d)"

definition unicode_escape :: "nat \<Rightarrow> jsstring" where
  "unicode_escape c =
     [92, 117, hex_digit (c div 4096), hex_digit (c div 256 mod 16),
      hex_digit (c div 16 mod 16), hex_digit (c mod 16)]"

definition is_lead :: "nat \<Rightarrow> bool" where
  "is_lead c = (55296 \<le> c \<and> c \<le> 56319)"

definition is_trail :: "nat \<Rightarrow> bool" where
  "is_trail c = (56320 \<le> c \<and> c \<le> 57343)"

definition quote_unit :: "nat \<Rightarrow> jsstring" where
  "quote_unit c =
     (if c = 8 then [92, 98]
      else if c = 9 then [92, 116]
      else if c = 10 then [92, 110]
      else if c = 12 then [92, 102]
      else if c = 13 then [92, 114]
      else if c = 34 then [92, 34]
      else if c = 92 then [92, 92]
      else if c < 32 \<or> is_lead c \<or> is_trail c then unicode_escape c
      else [c])"

fun quote_chars :: "jsstring \<Rightarrow> jsstring" where
  "quote_chars [] = []"
| "quote_chars [c] = quote_unit c"
| "quote_chars (c # d # ds) =
     (if is_lead c \<and> is_trail d then c # d # quote_chars ds
      else quote_unit c @ quote_chars (d # ds))"

definition quote :: "jsstring \<Rightarrow> jsstring" where
  "quote s = 34 # quote_chars s @ [34]"

text \<open>The decimal digits of an integer, as \<^verbatim>\<open>JSON.stringify\<close> and template literals print it.\<close>

function show_nat :: "nat \<Rightarrow> jsstring" where
  "show_nat n = (if n < 10 then [48 + n] else show_nat (n div 10) @ [48 + n mod 10])"
  by pat_completeness auto
termination
  by (relation "measure id") auto

declare show_nat.simps [simp del]

definition show_int :: "int \<Rightarrow> jsstring" where
  "show_int i = (if i < 0 then 45 # show_nat (nat (- i)) else show_nat (nat i))"

text \<open>
  \<^verbatim>\<open>JSON.stringify(config, null, 2)\<close>: one member per line, indented by two spaces per
  level, a colon and a space between key and value, members in the order in which setup created
  the properties; a property that is not there is left out. (A key that a command-line override
  adds to a loaded configuration would come last in the file; the object read back is the same.)
\<close>

fun join :: "jsstring \<Rightarrow> jsstring list \<Rightarrow> jsstring" where
  "join sep [] = []"
| "join sep [x] = x"
| "join sep (x # y # ys) = x @ sep @ join sep (y # ys)"

definition member :: "nat \<Rightarrow> string \<Rightarrow> jsstring \<Rightarrow> jsstring" where
  "member ind k v = replicate ind 32 @ quote (js k) @ [58, 32] @ v"

definition key_member :: "string \<Rightarrow> key_field \<Rightarrow> jsstring list" where
  "key_member k f =
     (case f of
        KeyAbsent \<Rightarrow> []
      | KeyNull \<Rightarrow> [member 2 k (js ''null'')]
      | KeyStr s \<Rightarrow> [member 2 k (quote s)])"

definition stringify_stats :: "agent_stats \<Rightarrow> jsstring" where
  "stringify_stats s =
     [123, 10]
     @ join [44, 10]
         [member 4 ''completed'' (show_int (completed s)),
          member 4 ''points'' (show_int (points s)),
          member 4 ''errors'' (show_int (errors s))]
     @ [10, 32, 32, 125]"

definition stringify_config :: "config \<Rightarrow> jsstring" where
  "stringify_config c =
     [123, 10]
     @ join [44, 10]
         ([member 2 ''name'' (quote (name c)),
           member 2 ''owner'' (quote (owner c)),
           member 2 ''solana_wallet'' (quote (solana_wallet c)),
           member 2 ''role'' (quote (role c)),
           member 2 ''model'' (quote (model c)),
           member 2 ''model_info'' (quote (model_info c))]
          @ key_member ''ai_api_key'' (ai_api_key c)
          @ [member 2 ''agent_id'' (quote (agent_id c))]
          @ key_member ''api_key'' (api_key c)
          @ [member 2 ''server'' (quote (server c)),
             member 2 ''created_at'' (quote (created_at c)),
             member 2 ''stats'' (stringify_stats (stats c))])
     @ [10, 125]"

text \<open>The configuration object as the JSON value it is in memory.\<close>

definition key_json :: "string \<Rightarrow> key_field \<Rightarrow> (jsstring \<times> json) list" where
  "key_json k f =
     (case f of
        KeyAbsent \<Rightarrow> []
      | KeyNull \<Rightarrow> [(js k, JNull)]
      | KeyStr s \<Rightarrow> [(js k, JString s)])"

definition stats_json :: "agent_stats \<Rightarrow> json" where
  "stats_json s =
     JObject [(js ''completed'', JNumber (of_int (completed s))),
              (js ''points'', JNumber (of_int (points s))),
              (js ''errors'', JNumber (of_int (errors s)))]"

definition config_json :: "config \<Rightarrow> json" where
  "config_json c =
     JObject
       ([(js ''name'', JString (name c)),
         (js ''owner'', JString (owner c)),
         (js ''solana_wallet'', JString (solana_wallet c)),
         (js ''role'', JString (role c)),
         (js ''model'', JString (model c)),
         (js ''model_info'', JString (model_info c))]
        @ key_json ''ai_api_key'' (ai_api_key c)
        @ [(js ''agent_id'', JString (agent_id c))]
        @ key_json ''api_key'' (api_key c)
        @ [(js ''server'', JString (server c)),
           (js ''created_at'', JString (created_at c)),
           (js ''stats'', stats_json (stats c))])"

text \<open>
  The file system, as far as the worker uses it: the contents of the one configuration file,
  \<open>None\<close> when the file does not exist. \<^verbatim>\<open>writeFileSync\<close> either succeeds or throws; when it
  throws, the file is left with whatever the failed write made of it.
\<close>

datatype write_result = WriteOk | WriteFails jsstring "jsstring option"

text \<open>
  \<^verbatim>\<open>loadConfig\<close>: the parsed contents of the file; \<^verbatim>\<open>null\<close> when there is no file or
  its contents do not parse (the caught exception).
\<close>

definition loadConfig :: "jsstring option \<Rightarrow> json" where
  "loadConfig disk =
     (case disk of
        None \<Rightarrow> JNull
      | Some data \<Rightarrow> (case JSON_parse data of None \<Rightarrow> JNull | Some v \<Rightarrow> v))"

text \<open>
  \<^verbatim>\<open>saveConfig\<close>: the new contents of the file and the exception, if any, that it logs and
  throws again.
\<close>

definition saveConfig :: "config \<Rightarrow> write_result \<Rightarrow> jsstring option \<Rightarrow> jsstring option \<times> jsstring option" where
  "saveConfig c w disk =
     (case w of
        WriteOk \<Rightarrow> (None, Some (stringify_config c))
      | WriteFails m left \<Rightarrow> (Some m, left))"

section \<open>The coordination client\<close>

text \<open>
  What \<^verbatim>\<open>fetch\<close> resolves to is an input of the model: the promise is rejected (a network
  failure, with the message of the error) or there is a response with a status and a body. An
  exception is modelled by its message, which is all the source reads of it.
\<close>

datatype http_reply = NetworkError jsstring | Response nat jsstring

definition resp_ok :: "nat \<Rightarrow> bool" where
  "resp_ok status = (200 \<le> status \<and> status \<le> 299)"

definition apiRequest :: "jsstring \<Rightarrow> jsstring \<Rightarrow> http_reply \<Rightarrow> jsstring + json" where
  "apiRequest method endpoint reply =
     (case reply of
        NetworkError m \<Rightarrow> Inl m
      | Response status body \<Rightarrow>
          if \<not> resp_ok status then
            Inl (js ''API '' @ method @ js '' '' @ endpoint @ js '' failed ('' @ show_nat status
                 @ js ''): '' @ body)
          else if body = [] then Inr JNull
          else (case JSON_parse body of Some v \<Rightarrow> Inr v | None \<Rightarrow> Inr (JString body)))"

text \<open>\<^verbatim>\<open>String.prototype.includes\<close>: the pattern occurs somewhere in the string.\<close>

fun js_includes :: "jsstring \<Rightarrow> jsstring \<Rightarrow> bool" where
  "js_includes [] p = (p = [])"
| "js_includes (c # cs) p = (starts_with (c # cs) p \<or> js_includes cs p)"

definition fetchWork :: "config \<Rightarrow> http_reply \<Rightarrow> jsstring + json" where
  "fetchWork c reply =
     (case apiRequest (js ''GET'') (js ''/api/agents/'' @ agent_id c @ js ''/work'') reply of
        Inr result \<Rightarrow> Inr result
      | Inl message \<Rightarrow>
          if js_includes message (js ''404'') \<or> js_includes message (js ''204'') then Inr JNull
          else Inl message)"

section \<open>Effects\<close>

text \<open>
  What the loop does to the outside is recorded as events: the log lines, the three kinds of
  HTTP request (the submission with the task id and the result it carries), the task emitted in
  OpenClaw mode, the text handed to \<^verbatim>\<open>writeFileSync\<close> and the sleeps. The banner that
  \<^verbatim>\<open>workerLoop\<close> prints before the loop is left out.
\<close>

datatype ai_failure = FetchRejected jsstring | ApiError jsstring nat jsstring | BadReplyJson

datatype log =
    ErrNoSystemPrompt jsstring
  | InfoOpenClawMode
  | WarnNoBackend
  | ErrNoApiKey jsstring jsstring
  | InfoSending jsstring
  | WarnEmptyResponse
  | WarnNoExtract
  | OkParsed
  | ErrAIFailed ai_failure
  | WorkReceived json
  | OkSubmitted json
  | ErrSubmit json jsstring
  | WarnNoResult json
  | Waiting agent_stats
  | ErrWorker nat jsstring
  | ErrBackoff
  | OkSaved
  | ErrSave jsstring

datatype event =
    Log log
  | HttpGetWork jsstring
  | HttpPostBackend jsstring
  | HttpPostSubmit json json
  | EmitOpenClawTask
  | WriteFile jsstring
  | Sleep nat

definition submitResult :: "json \<Rightarrow> json \<Rightarrow> http_reply \<Rightarrow> (jsstring + json) \<times> event list" where
  "submitResult taskId result reply =
     (case apiRequest (js ''POST'') (js ''/api/agents/submit'') reply of
        Inr resp \<Rightarrow> (Inr resp, [HttpPostSubmit taskId result, Log (OkSubmitted taskId)])
      | Inl message \<Rightarrow>
          (Inl message, [HttpPostSubmit taskId result, Log (ErrSubmit taskId message)]))"

section \<open>processWithAI\<close>

text \<open>
  The task prompt is \<^verbatim>\<open>work.prompt || work.description || work.task || JSON.stringify(work)\<close>,
  the first truthy of the three properties; \<open>None\<close> stands for the stringified work item, a
  string whose text is not modelled. \<open>has_slice\<close>: the value has a method \<^verbatim>\<open>slice\<close>
  (strings and arrays); calling it on anything else throws a \<^verbatim>\<open>TypeError\<close>.
  \<open>slice_line n p\<close> is the exception, if any, of substituting
  \<^verbatim>\<open>taskPrompt.slice(0, n)\<close> into a template literal: the call, then the conversion of the
  slice (the first \<open>n\<close> elements when the prompt is an array) to a string.
\<close>

definition first_truthy :: "json option \<Rightarrow> json option \<Rightarrow> json option" where
  "first_truthy a b = (case a of Some v \<Rightarrow> if truthy v then Some v else b | None \<Rightarrow> b)"

definition task_prompt :: "json \<Rightarrow> json option" where
  "task_prompt work =
     first_truthy (js_prop (js ''prompt'') work)
       (first_truthy (js_prop (js ''description'') work)
          (first_truthy (js_prop (js ''task'') work) None))"

definition has_slice :: "json option \<Rightarrow> bool" where
  "has_slice p = (case p of None \<Rightarrow> True | Some (JString s) \<Rightarrow> True | Some (JArray xs) \<Rightarrow> True
                  | Some _ \<Rightarrow> False)"

definition slice_line :: "nat \<Rightarrow> json option \<Rightarrow> jsstring option" where
  "slice_line n p =
     (if \<not> has_slice p then Some (js ''taskPrompt.slice is not a function'')
      else (case p of
              Some (JArray xs) \<Rightarrow>
                if ToString_throws (JArray (take n xs)) then Some cannot_convert else None
            | _ \<Rightarrow> None))"

text \<open>
  The outcome of \<^verbatim>\<open>processWithAI\<close>: \<^verbatim>\<open>null\<close>, a value to submit, or an exception
  (\<open>Thrown\<close>, with its message). The generated text that \<^verbatim>\<open>extractText\<close> finds in a
  provider reply is a string; a reply that holds a truthy value of another type at that place
  is outside the model (\<open>OutOfModel\<close>).
\<close>

datatype ai_result = NoResult | Result json | Thrown jsstring | OutOfModel

text \<open>\<^verbatim>\<open>config.ai_api_key || process.env[backend.envKey]\<close>, \<open>None\<close> when it is falsy.\<close>

definition api_key_for :: "config \<Rightarrow> (jsstring \<Rightarrow> jsstring option) \<Rightarrow> backend \<Rightarrow> jsstring option" where
  "api_key_for c environ b =
     (case ai_api_key c of
        KeyStr k \<Rightarrow> if k \<noteq> [] then Some k else
          (case environ (envKey b) of Some e \<Rightarrow> if e \<noteq> [] then Some e else None | None \<Rightarrow> None)
      | _ \<Rightarrow>
          (case environ (envKey b) of Some e \<Rightarrow> if e \<noteq> [] then Some e else None | None \<Rightarrow> None))"

text \<open>
  \<^verbatim>\<open>processWithAI\<close>. Without a backend the function prints the task, the prompt as
  \<^verbatim>\<open>taskPrompt.slice(0, 200)\<close> in a template literal; this is outside its \<^verbatim>\<open>try\<close>
  block, which begins after the credential check.
\<close>

definition processWithAI ::
  "config \<Rightarrow> json option \<Rightarrow> (jsstring \<Rightarrow> jsstring option) \<Rightarrow> http_reply \<Rightarrow> ai_result \<times> event list" where
  "processWithAI c taskPrompt environ reply =
     (if \<not> ROLE_PROMPTS (role c) then (NoResult, [Log (ErrNoSystemPrompt (role c))])
      else if model c = js ''openclaw'' then
        (NoResult, [Log InfoOpenClawMode, EmitOpenClawTask, Sleep 2000])
      else
        (case (if model c = js ''none'' then None else AI_BACKENDS (model c)) of
           None \<Rightarrow>
             (case slice_line 200 taskPrompt of
                Some message \<Rightarrow> (Thrown message, [Log WarnNoBackend])
              | None \<Rightarrow> (NoResult, [Log WarnNoBackend]))
         | Some b \<Rightarrow>
             (case api_key_for c environ b of
                None \<Rightarrow> (NoResult, [Log (ErrNoApiKey (label b) (envKey b))])
              | Some apiKey \<Rightarrow>
                  (case reply of
                     NetworkError m \<Rightarrow>
                       (NoResult,
                        [Log (InfoSending (label b)), HttpPostBackend (model c),
                         Log (ErrAIFailed (FetchRejected m))])
                   | Response status body \<Rightarrow>
                       if \<not> resp_ok status then
                         (NoResult,
                          [Log (InfoSending (label b)), HttpPostBackend (model c),
                           Log (ErrAIFailed (ApiError (label b) status (take 200 body)))])
                       else
                         (case JSON_parse body of
                            None \<Rightarrow>
                              (NoResult,
                               [Log (InfoSending (label b)), HttpPostBackend (model c),
                                Log (ErrAIFailed BadReplyJson)])
                          | Some j \<Rightarrow>
                              (let text = extractText b j
                               in if \<not> truthy text then
                                    (NoResult,
                                     [Log (InfoSending (label b)), HttpPostBackend (model c),
                                      Log WarnEmptyResponse])
                                  else
                                    (case text of
                                       JString s \<Rightarrow>
                                         (let parsed = extractJSON s
                                          in if \<not> truthy parsed then
                                               (Result (JObject [(js ''_raw_text'', JString s)]),
                                                [Log (InfoSending (label b)),
                                                 HttpPostBackend (model c), Log WarnNoExtract])
                                             else
                                               (Result parsed,
                                                [Log (InfoSending (label b)),
                                                 HttpPostBackend (model c), Log OkParsed]))
                                     | _ \<Rightarrow>
                                         (OutOfModel,
                                          [Log (InfoSending (label b)),
                                           HttpPostBackend (model c)]))))))))"

section \<open>The worker loop\<close>

text \<open>
  The state of \<^verbatim>\<open>workerLoop\<close>: the configuration object it mutates, its local counter
  \<^verbatim>\<open>consecutiveErrors\<close>, the configuration file, and the events so far. The inputs of one
  pass of the loop: the replies to the (at most) three requests, the outcome of the (at most
  one) write of the file, and the process environment.
\<close>

record loop_state =
  cfg :: config
  consecutiveErrors :: nat
  disk :: "jsstring option"
  trace :: "event list"

record cycle_env =
  fetch_reply :: http_reply
  ai_reply :: http_reply
  submit_reply :: http_reply
  write_outcome :: write_result
  environ :: "jsstring \<Rightarrow> jsstring option"

definition MAX_CONSECUTIVE_ERRORS :: nat where
  "MAX_CONSECUTIVE_ERRORS = 10"

definition ERROR_BACKOFF_MS :: nat where
  "ERROR_BACKOFF_MS = 15000"

definition POLL_INTERVAL_MS :: nat where
  "POLL_INTERVAL_MS = 5000"

definition emit :: "event list \<Rightarrow> loop_state \<Rightarrow> loop_state" where
  "emit es st = st\<lparr>trace := trace st @ es\<rparr>"

text \<open>\<^verbatim>\<open>work && work.task_id\<close>: the task id when the reply is a work item.\<close>

definition work_task_id :: "json \<Rightarrow> json option" where
  "work_task_id work =
     (if truthy work then
        (case js_prop (js ''task_id'') work of
           Some t \<Rightarrow> if truthy t then Some t else None
         | None \<Rightarrow> None)
      else None)"

text \<open>
  The line \<^verbatim>\<open>Received task ${taskId}: ${taskPrompt.slice(0, 80)}...\<close> that \<^verbatim>\<open>logWork\<close>
  prints: the exception, if any, of building it. The substitutions are evaluated and converted
  from left to right, the task id first.
\<close>

definition received_line :: "json \<Rightarrow> json option \<Rightarrow> jsstring option" where
  "received_line taskId taskPrompt =
     (if ToString_throws taskId then Some cannot_convert else slice_line 80 taskPrompt)"

text \<open>
  The body of the \<^verbatim>\<open>try\<close> block of one pass: the exception it throws, if any, and the
  state it leaves. The outer \<open>None\<close> is a pass outside the model (see \<open>ai_result\<close> and
  \<open>js_add\<close>).
\<close>

definition try_block :: "role_info \<Rightarrow> cycle_env \<Rightarrow> loop_state \<Rightarrow> (jsstring option \<times> loop_state) option" where
  "try_block roleInfo env st =
     (let st0 = emit [HttpGetWork (agent_id (cfg st))] st
      in case fetchWork (cfg st) (fetch_reply env) of
           Inl message \<Rightarrow> Some (Some message, st0)
         | Inr work \<Rightarrow>
             (case work_task_id work of
                None \<Rightarrow>
                  Some (None, (emit [Log (Waiting (stats (cfg st)))] st0)\<lparr>consecutiveErrors := 0\<rparr>)
              | Some taskId \<Rightarrow>
                  (let st1 = st0\<lparr>consecutiveErrors := 0\<rparr>;
                       taskPrompt = task_prompt work
                   in case received_line taskId taskPrompt of
                        Some message \<Rightarrow> Some (Some message, st1)
                      | None \<Rightarrow>
                        (case processWithAI (cfg st1) taskPrompt (environ env) (ai_reply env) of
                           (OutOfModel, es) \<Rightarrow> None
                         | (Thrown message, es) \<Rightarrow>
                             Some (Some message, emit (Log (WorkReceived taskId) # es) st1)
                         | (NoResult, es) \<Rightarrow>
                             Some (None, emit (Log (WorkReceived taskId) # es
                                               @ [Log (WarnNoResult taskId)]) st1)
                         | (Result result, es) \<Rightarrow>
                             (case submitResult taskId result (submit_reply env) of
                                (Inl message, es') \<Rightarrow>
                                  Some (Some message,
                                        emit (Log (WorkReceived taskId) # es @ es') st1)
                              | (Inr resp, es') \<Rightarrow>
                                  (case (js_add (completed (stats (cfg st1))) 1,
                                         js_add (points (stats (cfg st1))) (role_points roleInfo)) of
                                     (Some n, Some p) \<Rightarrow>
                                       (let st2 = emit (Log (WorkReceived taskId) # es @ es') st1;
                                            c' = (cfg st2)\<lparr>stats :=
                                                   (stats (cfg st2))\<lparr>completed := n, points := p\<rparr>\<rparr>;
                                            st3 = emit [WriteFile (stringify_config c')]
                                                    (st2\<lparr>cfg := c'\<rparr>)
                                        in case saveConfig c' (write_outcome env) (disk st3) of
                                             (None, d) \<Rightarrow>
                                               Some (None, emit [Log OkSaved] (st3\<lparr>disk := d\<rparr>))
                                           | (Some message, d) \<Rightarrow>
                                               Some (Some message,
                                                     emit [Log (ErrSave message)]
                                                       (st3\<lparr>disk := d\<rparr>)))
                                   | _ \<Rightarrow> None))))))"

text \<open>The \<^verbatim>\<open>catch\<close> block of the loop; \<open>None\<close> is a pass outside the model (\<open>js_add\<close>).\<close>

definition catch_block :: "jsstring \<Rightarrow> loop_state \<Rightarrow> loop_state option" where
  "catch_block message st =
     (case js_add (errors (stats (cfg st))) 1 of
        None \<Rightarrow> None
      | Some e \<Rightarrow>
          (let n = consecutiveErrors st + 1;
               c' = (cfg st)\<lparr>stats := (stats (cfg st))\<lparr>errors := e\<rparr>\<rparr>;
               st1 = emit [Log (ErrWorker n message)] (st\<lparr>consecutiveErrors := n, cfg := c'\<rparr>)
           in Some (if MAX_CONSECUTIVE_ERRORS \<le> n then
                      (emit [Log ErrBackoff, Sleep ERROR_BACKOFF_MS] st1)\<lparr>consecutiveErrors := 0\<rparr>
                    else st1)))"

text \<open>One pass of \<^verbatim>\<open>while (true)\<close>, with the sleep that ends it.\<close>

definition cycle :: "role_info \<Rightarrow> cycle_env \<Rightarrow> loop_state \<Rightarrow> loop_state option" where
  "cycle roleInfo env st =
     (case try_block roleInfo env st of
        None \<Rightarrow> None
      | Some (None, st1) \<Rightarrow> Some (emit [Sleep POLL_INTERVAL_MS] st1)
      | Some (Some message, st1) \<Rightarrow>
          map_option (emit [Sleep POLL_INTERVAL_MS]) (catch_block message st1))"

text \<open>
  The loop never ends by itself; a run of the model is the passes for a finite list of inputs,
  one per pass.
\<close>

fun cycles :: "role_info \<Rightarrow> cycle_env list \<Rightarrow> loop_state \<Rightarrow> loop_state option" where
  "cycles roleInfo [] st = Some st"
| "cycles roleInfo (env # envs) st =
     (case cycle roleInfo env st of None \<Rightarrow> None | Some st' \<Rightarrow> cycles roleInfo envs st')"

text \<open>
  \<^verbatim>\<open>workerLoop\<close>: \<^verbatim>\<open>ROLES[config.role]\<close> is read once, before the loop; reading the label
  of a role that is not in the table throws out of the function (\<open>Inl\<close>).
\<close>

definition workerLoop ::
  "config \<Rightarrow> jsstring option \<Rightarrow> cycle_env list \<Rightarrow> jsstring + loop_state option" where
  "workerLoop c d envs =
     (case ROLES (role c) of
        None \<Rightarrow> Inl (js ''Cannot read properties of undefined (reading label)'')
      | Some roleInfo \<Rightarrow>
          Inr (cycles roleInfo envs \<lparr>cfg = c, consecutiveErrors = 0, disk = d, trace = []\<rparr>))"

text \<open>
  A pass fails when its \<^verbatim>\<open>try\<close> block throws. \<open>fetch_failed\<close> says that a pass fails in
  \<^verbatim>\<open>fetchWork\<close>, before the reply is looked at. \<open>all_fetch_failed\<close> says that every
  pass of a run fails in \<^verbatim>\<open>fetchWork\<close>,
  \<open>all_failed_after_work\<close> that every pass fails after \<^verbatim>\<open>fetchWork\<close> has returned (a
  work item whose line cannot be logged, an exception of \<^verbatim>\<open>processWithAI\<close>, a refused
  submission, a failed write). \<open>worker_errors\<close> lists the numbers \<open>n\<close> of the lines
  \<^verbatim>\<open>Worker error (n/10)\<close> among events.
\<close>

definition pass_failed :: "role_info \<Rightarrow> cycle_env \<Rightarrow> loop_state \<Rightarrow> bool" where
  "pass_failed roleInfo env st =
     (case try_block roleInfo env st of Some (Some message, st1) \<Rightarrow> True | _ \<Rightarrow> False)"

definition fetch_failed :: "cycle_env \<Rightarrow> loop_state \<Rightarrow> bool" where
  "fetch_failed env st = (case fetchWork (cfg st) (fetch_reply env) of Inl m \<Rightarrow> True | Inr w \<Rightarrow> False)"

fun all_fetch_failed :: "role_info \<Rightarrow> cycle_env list \<Rightarrow> loop_state \<Rightarrow> bool" where
  "all_fetch_failed roleInfo [] st = True"
| "all_fetch_failed roleInfo (env # envs) st =
     (fetch_failed env st
      \<and> (case cycle roleInfo env st of None \<Rightarrow> False | Some st' \<Rightarrow> all_fetch_failed roleInfo envs st'))"

fun all_failed_after_work :: "role_info \<Rightarrow> cycle_env list \<Rightarrow> loop_state \<Rightarrow> bool" where
  "all_failed_after_work roleInfo [] st = True"
| "all_failed_after_work roleInfo (env # envs) st =
     (pass_failed roleInfo env st \<and> \<not> fetch_failed env st
      \<and> (case cycle roleInfo env st of
            None \<Rightarrow> False
          | Some st' \<Rightarrow> all_failed_after_work roleInfo envs st'))"

definition worker_errors :: "event list \<Rightarrow> nat list" where
  "worker_errors es =
     concat (map (\<lambda>e. case e of Log (ErrWorker n message) \<Rightarrow> [n] | _ \<Rightarrow> []) es)"

definition backoffs :: "event list \<Rightarrow> nat" where
  "backoffs es = length (filter (\<lambda>e. e = Sleep ERROR_BACKOFF_MS) es)"

text \<open>
  \<open>adapter_yields c penv reply s\<close> (with \<open>penv\<close> the process environment): the backend
  adapter yields the raw text \<open>s\<close>, that is, the role has an instruction, a backend is configured, a credential is at hand, the provider
  answers with a success status and a JSON body, and the generated text in it is the non-empty
  string \<open>s\<close>.
\<close>

definition adapter_yields ::
  "config \<Rightarrow> (jsstring \<Rightarrow> jsstring option) \<Rightarrow> http_reply \<Rightarrow> jsstring \<Rightarrow> bool" where
  "adapter_yields c penv reply s =
     (ROLE_PROMPTS (role c) \<and> model c \<noteq> js ''openclaw'' \<and> model c \<noteq> js ''none''
      \<and> (case AI_BACKENDS (model c) of
            None \<Rightarrow> False
          | Some b \<Rightarrow>
              api_key_for c penv b \<noteq> None
              \<and> (case reply of
                    NetworkError m \<Rightarrow> False
                  | Response status body \<Rightarrow>
                      resp_ok status
                      \<and> (case JSON_parse body of
                            None \<Rightarrow> False
                          | Some j \<Rightarrow> extractText b j = JString s \<and> s \<noteq> []))))"

text \<open>
  \<open>submit_accepted env\<close>: the coordinator answers the submission with a success status.
  \<open>safe_counts ri c\<close>: the three additions that a pass may make to the counters of \<open>c\<close>
  are exact.
\<close>

definition submit_accepted :: "cycle_env \<Rightarrow> bool" where
  "submit_accepted env =
     (case apiRequest (js ''POST'') (js ''/api/agents/submit'') (submit_reply env) of
        Inr resp \<Rightarrow> True
      | Inl message \<Rightarrow> False)"

definition safe_counts :: "role_info \<Rightarrow> config \<Rightarrow> bool" where
  "safe_counts ri c =
     (exact_sum (completed (stats c)) 1 \<and> exact_sum (points (stats c)) (role_points ri)
      \<and> exact_sum (errors (stats c)) 1)"

text \<open>
  \<open>submissions\<close> counts the accepted submissions among events, \<open>is_network_call\<close>
  picks the three kinds of HTTP request, \<open>failed_passes\<close> counts the failing passes of a
  run.
\<close>

fun is_submitted :: "event \<Rightarrow> bool" where
  "is_submitted (Log (OkSubmitted t)) = True"
| "is_submitted _ = False"

definition submissions :: "event list \<Rightarrow> nat" where
  "submissions es = length (filter is_submitted es)"

fun is_network_call :: "event \<Rightarrow> bool" where
  "is_network_call (HttpGetWork a) = True"
| "is_network_call (HttpPostBackend m) = True"
| "is_network_call (HttpPostSubmit t r) = True"
| "is_network_call _ = False"

fun failed_passes :: "role_info \<Rightarrow> cycle_env list \<Rightarrow> loop_state \<Rightarrow> nat" where
  "failed_passes roleInfo [] st = 0"
| "failed_passes roleInfo (env # envs) st =
     (if pass_failed roleInfo env st then 1 else 0)
     + (case cycle roleInfo env st of None \<Rightarrow> 0 | Some st' \<Rightarrow> failed_passes roleInfo envs st')"

section \<open>Sample inputs\<close>

text \<open>
  A configuration as \<^verbatim>\<open>cliSetup\<close> creates it, and inputs for single passes of the loop: no
  content from the coordinator; a work item that the backend answers with text that is not
  JSON; a work item that is answered with JSON, with the submission accepted or refused;
  and a failing poll.
\<close>

definition sample_config :: config where
  "sample_config =
     \<lparr>name = js ''TrendBot'', owner = js ''anonymous'', solana_wallet = [],
      role = js ''trend_researcher'', model = js ''gemini'',
      model_info = js ''Google Gemini (free)'', ai_api_key = KeyStr (js ''k1''),
      agent_id = js ''agent-1'', api_key = KeyStr (js ''s1''),
      server = js ''http://57.129.44.62:8000'', created_at = js ''2025-01-01T00:00:00.000Z'',
      stats = \<lparr>completed = 0, points = 0, errors = 0\<rparr>\<rparr>"

definition sample_role :: role_info where
  "sample_role = \<lparr>difficulty = js ''easy'', role_points = 10, role_label = js ''Trend Researcher''\<rparr>"

definition sample_state :: "nat \<Rightarrow> loop_state" where
  "sample_state n = \<lparr>cfg = sample_config, consecutiveErrors = n, disk = None, trace = []\<rparr>"

definition work_body :: jsstring where
  "work_body = js ''{\"task_id\":\"t1\",\"prompt\":\"p\"}''"

definition gemini_body :: "string \<Rightarrow> jsstring" where
  "gemini_body t =
     js ''{\"candidates\":[{\"content\":{\"parts\":[{\"text\":\"'' @ js t @ js ''\"}]}}]}''"

definition env_no_work :: cycle_env where
  "env_no_work =
     \<lparr>fetch_reply = Response 204 [], ai_reply = NetworkError [], submit_reply = NetworkError [],
      write_outcome = WriteOk, environ = (\<lambda>k. None)\<rparr>"

definition env_raw_text :: cycle_env where
  "env_raw_text =
     \<lparr>fetch_reply = Response 200 work_body,
      ai_reply = Response 200 (gemini_body ''not json at all''),
      submit_reply = Response 200 (js ''{\"ok\":true}''),
      write_outcome = WriteOk, environ = (\<lambda>k. None)\<rparr>"

definition env_submitted :: cycle_env where
  "env_submitted =
     \<lparr>fetch_reply = Response 200 work_body,
      ai_reply = Response 200 (gemini_body ''[1]''),
      submit_reply = Response 200 (js ''{\"ok\":true}''),
      write_outcome = WriteOk, environ = (\<lambda>k. None)\<rparr>"

definition env_submit_refused :: cycle_env where
  "env_submit_refused =
     \<lparr>fetch_reply = Response 200 work_body,
      ai_reply = Response 200 (gemini_body ''[1]''),
      submit_reply = Response 500 (js ''down''),
      write_outcome = WriteOk, environ = (\<lambda>k. None)\<rparr>"

definition env_fetch_fails :: cycle_env where
  "env_fetch_fails =
     \<lparr>fetch_reply = Response 500 (js ''down''), ai_reply = NetworkError [],
      submit_reply = NetworkError [], write_outcome = WriteOk, environ = (\<lambda>k. None)\<rparr>"

section \<open>Auxiliary notions for the round trip through the configuration file\<close>

text \<open>
  \<open>number_end r\<close>: the text \<open>r\<close> behind a number does not continue the number (it is empty or
  begins with a comma or a line feed). \<open>line\<close> is one member of a pretty-printed object,
  \<open>lines\<close> the members of an object given as triples of key, value text and value.
  \<open>config_triples\<close> lists the members of the configuration object in this form.
\<close>

definition number_end :: "jsstring \<Rightarrow> bool" where
  "number_end r = (case r of [] \<Rightarrow> True | c # cs \<Rightarrow> c = 44 \<or> c = 10)"

definition line :: "nat \<Rightarrow> jsstring \<times> jsstring \<times> json \<Rightarrow> jsstring" where
  "line ind t = (case t of (k, vt, v) \<Rightarrow> replicate ind 32 @ quote k @ [58, 32] @ vt)"

definition lines :: "nat \<Rightarrow> (jsstring \<times> jsstring \<times> json) list \<Rightarrow> jsstring" where
  "lines ind ts = join [44, 10] (map (line ind) ts)"

definition key_triples :: "string \<Rightarrow> key_field \<Rightarrow> (jsstring \<times> jsstring \<times> json) list" where
  "key_triples k f =
     (case f of
        KeyAbsent \<Rightarrow> []
      | KeyNull \<Rightarrow> [(js k, js ''null'', JNull)]
      | KeyStr s \<Rightarrow> [(js k, quote s, JString s)])"

definition stats_triples :: "agent_stats \<Rightarrow> (jsstring \<times> jsstring \<times> json) list" where
  "stats_triples s =
     [(js ''completed'', show_int (completed s), JNumber (of_int (completed s))),
      (js ''points'', show_int (points s), JNumber (of_int (points s))),
      (js ''errors'', show_int (errors s), JNumber (of_int (errors s)))]"

definition config_triples :: "config \<Rightarrow> (jsstring \<times> jsstring \<times> json) list" where
  "config_triples c =
     [(js ''name'', quote (name c), JString (name c)),
      (js ''owner'', quote (owner c), JString (owner c)),
      (js ''solana_wallet'', quote (solana_wallet c), JString (solana_wallet c)),
      (js ''role'', quote (role c), JString (role c)),
      (js ''model'', quote (model c), JString (model c)),
      (js ''model_info'', quote (model_info c), JString (model_info c))]
     @ key_triples ''ai_api_key'' (ai_api_key c)
     @ [(js ''agent_id'', quote (agent_id c), JString (agent_id c))]
     @ key_triples ''api_key'' (api_key c)
     @ [(js ''server'', quote (server c), JString (server c)),
        (js ''created_at'', quote (created_at c), JString (created_at c)),
        (js ''stats'', stringify_stats (stats c), stats_json (stats c))]"

text \<open>
  \<open>well_formed s\<close>: every surrogate in \<open>s\<close> is part of a pair. Such a string is written to a
  UTF-8 file and read back unchanged, which is why the file is modelled by the string itself.
\<close>

fun well_formed :: "jsstring \<Rightarrow> bool" where
  "well_formed [] = True"
| "well_formed [c] = (\<not> is_lead c \<and> \<not> is_trail c)"
| "well_formed (c # d # ds) =
     (if is_lead c \<and> is_trail d then well_formed ds
      else \<not> is_lead c \<and> \<not> is_trail c \<and> well_formed (d # ds))"

definition plain :: "jsstring \<Rightarrow> bool" where
  "plain s = (\<forall>c \<in> set s. \<not> is_lead c \<and> \<not> is_trail c)"

section \<open>The regular expressions against the plain definitions\<close>

lemma rx_atom_case:
  "rx_match (Atom a # r) s = (case s of [] \<Rightarrow> None | c # cs \<Rightarrow> if atom_ok a c then rx_match r cs else None)"
  by (cases s) auto

lemma greedy_close:
  "rx_match [StarGreedy AnyUnit, Atom (Ch b), GroupClose] s =
     (if b \<in> set s then Some ([], rev (takeWhile (\<lambda>c. c \<noteq> b) (rev s))) else None)"
proof (induction s)
  case Nil
  show ?case by simp
next
  case (Cons c cs)
  show ?case
  proof (cases "b \<in> set cs")
    case True
    then show ?thesis using Cons by (simp add: takeWhile_append1)
  next
    case False
    then have "takeWhile (\<lambda>c. c \<noteq> b) (rev cs) = rev cs"
      by (auto simp: takeWhile_eq_all_conv)
    moreover have "takeWhile (\<lambda>c. c \<noteq> b) (rev cs @ [c]) = rev cs @ takeWhile (\<lambda>c. c \<noteq> b) [c]"
      by (rule takeWhile_append2) (use False in auto)
    ultimately show ?thesis using False Cons by auto
  qed
qed

lemma span_match:
  "rx_match (span_rx a b) s =
     (case s of [] \<Rightarrow> None
      | c # cs \<Rightarrow> if c = a \<and> b \<in> set cs
                 then Some (s, rev (takeWhile (\<lambda>c. c \<noteq> b) (rev cs))) else None)"
  unfolding span_rx_def by (cases s) (simp_all add: greedy_close)

lemma span_search:
  "rx_search (span_rx a b) t =
     (case dropWhile (\<lambda>c. c \<noteq> a) t of
        [] \<Rightarrow> None
      | x # body \<Rightarrow> if b \<in> set body
                 then Some (x # body, rev (takeWhile (\<lambda>c. c \<noteq> b) (rev body))) else None)"
proof (induction t)
  case Nil
  show ?case by (simp add: span_match)
next
  case (Cons c cs)
  note IH = Cons.IH
  show ?case
  proof (cases "c = a")
    case False
    then show ?thesis using Cons by (simp add: span_match)
  next
    case True
    show ?thesis
    proof (cases "b \<in> set cs")
      case True
      with \<open>c = a\<close> show ?thesis by (simp add: span_match)
    next
      case False
      have "rx_search (span_rx a b) cs = None"
      proof (cases "dropWhile (\<lambda>c. c \<noteq> a) cs")
        case Nil
        show ?thesis unfolding IH Nil by simp
      next
        case (Cons x body)
        then have "set body \<subseteq> set cs"
          by (metis set_dropWhileD set_subset_Cons subsetI subset_trans list.set_intros(2))
        with False have "b \<notin> set body" by auto
        then show ?thesis unfolding IH Cons by simp
      qed
      with False \<open>c = a\<close> show ?thesis by (simp add: span_match)
    qed
  qed
qed

lemma span_group: "match_group (span_rx a b) t = outer_span a b t"
proof -
  have *: "take (Suc (length body) - length (takeWhile (\<lambda>c. c \<noteq> b) (rev body))) (x # body)
           = x # rev (dropWhile (\<lambda>c. c \<noteq> b) (rev body))" if "b \<in> set body" for x body
  proof -
    let ?t = "takeWhile (\<lambda>c. c \<noteq> b) (rev body)" and ?d = "dropWhile (\<lambda>c. c \<noteq> b) (rev body)"
    have "rev body = ?t @ ?d" by simp
    then have b: "body = rev ?d @ rev ?t" by (metis rev_append rev_rev_ident)
    have "?d \<noteq> []" using that by (simp add: dropWhile_eq_Nil_conv)
    then have "length ?t < length body"
      by (metis b length_append length_rev length_greater_0_conv less_add_same_cancel2 add.commute)
    then have "Suc (length body) - length ?t = Suc (length (rev ?d))"
      using arg_cong[OF b, of length] by simp
    then show ?thesis using b by (metis append_eq_conv_conj take_Suc_Cons)
  qed
  show ?thesis
  proof (cases "dropWhile (\<lambda>c. c \<noteq> a) t")
    case Nil
    show ?thesis unfolding match_group_def outer_span_def span_search Nil by simp
  next
    case (Cons x body)
    show ?thesis unfolding match_group_def outer_span_def span_search Cons by (simp add: *)
  qed
qed

lemma three_ticks:
  "rx_match (Atom (Ch 96) # Atom (Ch 96) # Atom (Ch 96) # r) s =
     (if at_fence s then rx_match r (drop 3 s) else None)"
  by (auto simp: at_fence_def starts_with_def rx_atom_case split: list.splits)

lemma at_fence_Nil [simp]: "\<not> at_fence []"
  by (simp add: at_fence_def starts_with_def)

lemma three_end:
  "rx_match [Atom (Ch 96), Atom (Ch 96), Atom (Ch 96)] s = (if at_fence s then Some ([], []) else None)"
  by (simp add: three_ticks)

lemma close_match:
  "rx_match [GroupClose, OptLit [10], Atom (Ch 96), Atom (Ch 96), Atom (Ch 96)] s =
     (if fence_stop s then Some ([], s) else None)"
  by (cases s) (auto simp: three_end fence_stop_def starts_with_def simp del: rx_match.simps(3))

lemma lazy_match:
  "rx_match [StarLazy AnyUnit, GroupClose, OptLit [10], Atom (Ch 96), Atom (Ch 96), Atom (Ch 96)] s =
     (case lazy_stop s of None \<Rightarrow> None | Some t \<Rightarrow> Some ([], t))"
proof (induction s)
  case Nil
  show ?case using close_match[of "[]"] by (simp add: fence_stop_def at_fence_def starts_with_def)
next
  case (Cons c cs)
  show ?case using close_match[of "c # cs"] Cons by simp
qed

lemma group_match:
  "rx_match group_rx s = (case lazy_stop s of None \<Rightarrow> None | Some t \<Rightarrow> Some (s, t))"
  unfolding group_rx_def by (simp add: lazy_match split: option.splits)

lemma lazy_stop_None: "lazy_stop s = None \<longleftrightarrow> before_fence s = None"
proof (induction s)
  case Nil
  show ?case by simp
next
  case (Cons c cs)
  show ?case
  proof (cases "at_fence (c # cs)")
    case True
    then show ?thesis by (simp add: fence_stop_def)
  next
    case nf: False
    show ?thesis
    proof (cases "c = 10 \<and> at_fence cs")
      case True
      then have "before_fence cs \<noteq> None" by (cases cs) auto
      with True nf show ?thesis by (auto simp: fence_stop_def)
    next
      case False
      with nf Cons show ?thesis by (auto simp: fence_stop_def split: option.splits)
    qed
  qed
qed

lemma lazy_stop_body:
  "lazy_stop s = Some t \<Longrightarrow>
   \<exists>b. before_fence s = Some b \<and> length t \<le> length s \<and>
       (b = take (length s - length t) s \<or> b = take (length s - length t) s @ [10])"
proof (induction s)
  case Nil
  then show ?case by simp
next
  case (Cons c cs)
  show ?case
  proof (cases "fence_stop (c # cs)")
    case True
    then have t: "t = c # cs" using Cons.prems by simp
    show ?thesis
    proof (cases "at_fence (c # cs)")
      case True
      with t show ?thesis by simp
    next
      case False
      with True have "c = 10" "at_fence cs" by (auto simp: fence_stop_def)
      then have "before_fence (c # cs) = Some [10]" using False by (cases cs) auto
      with t show ?thesis by simp
    qed
  next
    case False
    then have ls: "lazy_stop cs = Some t" using Cons.prems by simp
    from Cons.IH[OF ls] obtain b where b: "before_fence cs = Some b" "length t \<le> length cs"
      "b = take (length cs - length t) cs \<or> b = take (length cs - length t) cs @ [10]"
      by blast
    from False have "\<not> at_fence (c # cs)" by (simp add: fence_stop_def)
    with b have "before_fence (c # cs) = Some (c # b)" by simp
    moreover have "take (length (c # cs) - length t) (c # cs) = c # take (length cs - length t) cs"
      using b(2) by (simp add: Suc_diff_le)
    ultimately show ?thesis using b by auto
  qed
qed

lemma space_not_tick: "is_space c \<Longrightarrow> c \<noteq> 96"
  by (auto simp: is_space_def)

lemma at_fence_Cons: "at_fence (c # cs) \<Longrightarrow> c = 96"
  by (simp add: at_fence_def starts_with_def)

lemma before_fence_Cons_other:
  "c \<noteq> 96 \<Longrightarrow> before_fence (c # x) = (case before_fence x of None \<Rightarrow> None | Some b \<Rightarrow> Some (c # b))"
  by (auto dest: at_fence_Cons)

lemma before_fence_prefix:
  "\<forall>c \<in> set w. c \<noteq> 96 \<Longrightarrow>
   before_fence (w @ x) = (case before_fence x of None \<Rightarrow> None | Some b \<Rightarrow> Some (w @ b))"
  by (induction w) (auto simp: before_fence_Cons_other simp del: before_fence.simps split: option.splits)

lemma before_fence_spaces:
  "before_fence x =
     (case before_fence (dropWhile is_space x) of None \<Rightarrow> None
      | Some b \<Rightarrow> Some (takeWhile is_space x @ b))"
proof -
  have "\<forall>c \<in> set (takeWhile is_space x). c \<noteq> 96"
    by (auto dest: set_takeWhileD space_not_tick)
  from before_fence_prefix[OF this, of "dropWhile is_space x"] show ?thesis by simp
qed

lemma before_fence_drop: "before_fence x = None \<Longrightarrow> before_fence (drop n x) = None"
proof (induction x arbitrary: n)
  case Nil
  show ?case by simp
next
  case (Cons c cs)
  then have "before_fence cs = None" by (auto split: if_splits option.splits)
  with Cons show ?case by (cases n) auto
qed

lemma group_match_None: "rx_match group_rx s = None \<longleftrightarrow> before_fence s = None"
  by (simp add: group_match lazy_stop_None[symmetric] split: option.splits)

lemma len_json: "length (js ''json'') = 4"
  by (simp add: js_def)

lemma ws_match:
  "rx_match (StarGreedy Space # OptLit [10] # group_rx) s = rx_match group_rx (dropWhile is_space s)"
proof (induction s)
  case Nil
  show ?case by (simp add: starts_with_def)
next
  case (Cons c cs)
  show ?case
  proof (cases "is_space c")
    case False
    then have "c \<noteq> 10" by (auto simp: is_space_def)
    with False show ?thesis by (simp add: starts_with_def)
  next
    case True
    show ?thesis
    proof (cases "rx_match group_rx (dropWhile is_space cs)")
      case (Some m)
      with True Cons show ?thesis by simp
    next
      case None
      then have "before_fence (dropWhile is_space cs) = None"
        by (simp only: group_match_None)
      then have nf: "before_fence cs = None" by (subst before_fence_spaces) simp
      then have "before_fence (c # cs) = None"
        using True by (simp add: before_fence_Cons_other space_not_tick del: before_fence.simps)
      then have "rx_match group_rx (c # cs) = None"
        by (simp only: group_match_None)
      moreover have "rx_match group_rx (drop 1 (c # cs)) = None"
        using nf by (simp add: group_match_None)
      ultimately show ?thesis using True None Cons by (auto simp: starts_with_def)
    qed
  qed
qed

lemma tag_match:
  "rx_match (OptLit (js ''json'') # StarGreedy Space # OptLit [10] # group_rx) s =
     rx_match group_rx (dropWhile is_space (strip_tag s))"
proof (cases "starts_with s (js ''json'')")
  case False
  then show ?thesis by (simp add: ws_match strip_tag_def)
next
  case True
  show ?thesis
  proof (cases "rx_match group_rx (dropWhile is_space (drop 4 s))")
    case (Some m)
    with True show ?thesis by (simp add: ws_match strip_tag_def len_json)
  next
    case None
    then have "before_fence (dropWhile is_space (drop 4 s)) = None"
      by (simp only: group_match_None)
    then have nf: "before_fence (drop 4 s) = None" by (subst before_fence_spaces) simp
    from True have "take 4 s = js ''json''" by (simp add: starts_with_def len_json)
    then have s: "s = js ''json'' @ drop 4 s" by (metis append_take_drop_id)
    have "before_fence (js ''json'' @ drop 4 s) = None"
      by (subst before_fence_prefix) (simp_all add: js_def nf)
    with s have "before_fence s = None" by simp
    then have "before_fence (dropWhile is_space s) = None"
      using before_fence_spaces[of s] by (simp split: option.splits)
    then have "rx_match group_rx (dropWhile is_space s) = None"
      by (simp only: group_match_None)
    with True None show ?thesis by (simp add: ws_match strip_tag_def len_json)
  qed
qed

lemma fence_match:
  "rx_match fence_rx s =
     (if at_fence s then rx_match group_rx (dropWhile is_space (strip_tag (drop 3 s))) else None)"
  unfolding fence_rx_def group_rx_def
  by (simp only: three_ticks tag_match[unfolded group_rx_def])

lemma fence_match_None:
  "before_fence (drop 3 s) = None \<Longrightarrow> rx_match fence_rx s = None"
proof -
  assume a: "before_fence (drop 3 s) = None"
  have "before_fence (strip_tag (drop 3 s)) = None"
    using a before_fence_drop[OF a, of 4] by (simp add: strip_tag_def)
  then have "before_fence (dropWhile is_space (strip_tag (drop 3 s))) = None"
    using before_fence_spaces[of "strip_tag (drop 3 s)"] by (simp split: option.splits)
  then show ?thesis by (simp add: fence_match group_match_None)
qed

lemma fence_search_None:
  "\<forall>n. before_fence (drop (n + 3) z) = None \<Longrightarrow> rx_search fence_rx z = None"
proof (induction z)
  case Nil
  show ?case by (simp add: fence_match)
next
  case (Cons c cs)
  have "rx_match fence_rx (c # cs) = None"
    using Cons.prems[rule_format, of 0] by (intro fence_match_None) simp
  moreover have "rx_search fence_rx cs = None"
  proof (rule Cons.IH, rule allI)
    fix n
    have "drop (Suc n + 3) (c # cs) = drop (n + 3) cs" by (simp only: add_Suc drop_Suc_Cons)
    with Cons.prems[rule_format, of "Suc n"] show "before_fence (drop (n + 3) cs) = None"
      by (simp only:)
  qed
  ultimately show ?case by simp
qed

lemma strip_tag_nofence: "before_fence (strip_tag x) = None \<longleftrightarrow> before_fence x = None"
proof (cases "starts_with x (js ''json'')")
  case False
  then show ?thesis by (simp add: strip_tag_def)
next
  case True
  then have "take 4 x = js ''json''" by (simp add: starts_with_def len_json)
  then have x: "x = js ''json'' @ drop 4 x" by (metis append_take_drop_id)
  have "before_fence (js ''json'' @ drop 4 x) =
          (case before_fence (drop 4 x) of None \<Rightarrow> None | Some b \<Rightarrow> Some (js ''json'' @ b))"
    by (rule before_fence_prefix) (simp add: js_def)
  with x have "before_fence x = None \<longleftrightarrow> before_fence (drop 4 x) = None"
    by (metis (no_types, lifting) option.case_eq_if option.distinct(1))
  with True show ?thesis by (simp add: strip_tag_def)
qed

lemma spaces_nofence: "before_fence (dropWhile is_space x) = None \<longleftrightarrow> before_fence x = None"
  using before_fence_spaces[of x] by (simp split: option.splits)

lemma fence_search:
  "rx_search fence_rx t =
     (case after_fence t of
        None \<Rightarrow> None
      | Some x \<Rightarrow> rx_match group_rx (dropWhile is_space (strip_tag x)))"
proof (induction t)
  case Nil
  show ?case by (simp add: fence_match)
next
  case (Cons c cs)
  show ?case
  proof (cases "at_fence (c # cs)")
    case False
    with Cons show ?thesis by (simp add: fence_match)
  next
    case True
    show ?thesis
    proof (cases "rx_match group_rx (dropWhile is_space (strip_tag (drop 2 cs)))")
      case (Some m)
      with True show ?thesis by (simp add: fence_match)
    next
      case None
      then have nf: "before_fence (drop 2 cs) = None"
        by (simp only: group_match_None spaces_nofence strip_tag_nofence)
      have "rx_search fence_rx cs = None"
      proof (rule fence_search_None, rule allI)
        fix n
        have "drop (n + 3) cs = drop (Suc n) (drop 2 cs)"
          by (simp add: eval_nat_numeral)
        with before_fence_drop[OF nf, of "Suc n"] show "before_fence (drop (n + 3) cs) = None"
          by (simp only:)
      qed
      with True None show ?thesis by (simp add: fence_match)
    qed
  qed
qed

lemma trim_spaces_prefix: "\<forall>c \<in> set w. is_space c \<Longrightarrow> trim (w @ b) = trim b"
  by (simp add: trim_def dropWhile_append2)

lemma trim_space_suffix:
  assumes "is_space c"
  shows "trim (p @ [c]) = trim p"
proof (cases "\<forall>x \<in> set p. is_space x")
  case True
  then have 1: "dropWhile is_space p = []" by simp
  from True assms have "\<forall>x \<in> set (p @ [c]). is_space x" by simp
  then have 2: "dropWhile is_space (p @ [c]) = []" by (simp only: dropWhile_eq_Nil_conv)
  show ?thesis unfolding trim_def 1 2 by simp
next
  case False
  then obtain x where "x \<in> set p" "\<not> is_space x" by blast
  then have "dropWhile is_space (p @ [c]) = dropWhile is_space p @ [c]"
    by (rule dropWhile_append1)
  with assms show ?thesis by (simp add: trim_def)
qed

lemma fence_group:
  "map_option trim (match_group fence_rx t) = fence_interior t"
proof (cases "after_fence t")
  case None
  then show ?thesis by (simp add: match_group_def fence_search fence_interior_def)
next
  case (Some x)
  define y where "y = strip_tag x"
  define z where "z = dropWhile is_space y"
  have search: "rx_search fence_rx t = (case lazy_stop z of None \<Rightarrow> None | Some u \<Rightarrow> Some (z, u))"
    unfolding fence_search Some group_match y_def z_def by simp
  show ?thesis
  proof (cases "lazy_stop z")
    case None
    then have "before_fence z = None" by (simp add: lazy_stop_None)
    then have "before_fence y = None" unfolding z_def by (simp only: spaces_nofence)
    with None show ?thesis
      by (simp add: match_group_def search fence_interior_def Some y_def)
  next
    case (Some u)
    from lazy_stop_body[OF Some] obtain b where b: "before_fence z = Some b"
      "b = take (length z - length u) z \<or> b = take (length z - length u) z @ [10]"
      by blast
    have "is_space 10" by (simp add: is_space_def)
    with b(2) have tb: "trim b = trim (take (length z - length u) z)"
      by (auto simp: trim_space_suffix)
    have "before_fence y = Some (takeWhile is_space y @ b)"
      using before_fence_spaces[of y] b(1) by (simp add: z_def)
    moreover have "trim (takeWhile is_space y @ b) = trim b"
      by (rule trim_spaces_prefix) (auto dest: set_takeWhileD)
    ultimately show ?thesis
      using tb Some \<open>after_fence t = Some x\<close>
      by (simp add: match_group_def search fence_interior_def y_def)
  qed
qed

lemma brace_rx_span: "brace_rx = span_rx 123 125"
  by (simp add: brace_rx_def span_rx_def)

lemma bracket_rx_span: "bracket_rx = span_rx 91 93"
  by (simp add: bracket_rx_def span_rx_def)

lemma extractJSON_spec: "extractJSON t = extract_spec t"
proof -
  have f: "(case match_group fence_rx t of None \<Rightarrow> None | Some g \<Rightarrow> JSON_parse (trim g))
           = Option.bind (fence_interior t) JSON_parse"
    unfolding fence_group[symmetric] by (cases "match_group fence_rx t") simp_all
  have s: "(case match_group (span_rx a b) t of None \<Rightarrow> None | Some g \<Rightarrow> JSON_parse g)
           = Option.bind (outer_span a b t) JSON_parse" for a b
    unfolding span_group by (cases "outer_span a b t") simp_all
  show ?thesis
    unfolding extractJSON_def extract_spec_def f brace_rx_span bracket_rx_span s
    by (simp split: option.splits)
qed


section \<open>The order of the extraction strategies\<close>

lemmas json_eval = JSON_parse_def parse_value.simps parse_elements.simps parse_members.simps
  js_def skip_ws_def is_json_ws_def starts_with_def mk_object_def parse_number_def
  parse_int_part_def parse_frac_def parse_exp_def is_digit_def digits_val_def scale_def
  hex4_def hex_val_def unescape_def

lemmas extract_eval = extractJSON_def match_group_def fence_rx_def brace_rx_def bracket_rx_def
  trim_def is_space_def

lemma extractJSON_direct: "JSON_parse t = Some v \<Longrightarrow> extractJSON t = v"
  by (simp add: extractJSON_def)

lemma extractJSON_not_json: "extractJSON (js ''not json at all'') = JNull"
  by (simp add: extract_eval json_eval)

lemma parse_sample_object:
  "JSON_parse (js ''{\"a\": [1,2,3]}'') =
     Some (JObject [(js ''a'', JArray [JNumber 1, JNumber 2, JNumber 3])])"
  by (simp add: json_eval)

text \<open>
  C1. For every input string, \<open>extractJSON\<close> returns the first success of, in this order:
  parsing the whole text; parsing the trimmed interior of the first fenced block (tag
  \<^verbatim>\<open>json\<close> optional); parsing the span from the first \<^verbatim>\<open>{\<close> to the last
  \<^verbatim>\<open>}\<close>; parsing the span from the first \<^verbatim>\<open>[\<close> to the last \<^verbatim>\<open>]\<close>;
  and \<^verbatim>\<open>null\<close> when all four fail. A text that is valid JSON yields its own parse, the
  text \<^verbatim>\<open>not json at all\<close> yields \<^verbatim>\<open>null\<close>, and \<^verbatim>\<open>{"a": [1,2,3]}\<close> yields the
  object that parsing it directly yields.
\<close>

theorem extractJSON_strategy_order:
  "extractJSON t =
     first_success
       [JSON_parse t,
        Option.bind (fence_interior t) JSON_parse,
        Option.bind (outer_span 123 125 t) JSON_parse,
        Option.bind (outer_span 91 93 t) JSON_parse]
   \<and> (JSON_parse t = Some v \<longrightarrow> extractJSON t = v)
   \<and> extractJSON (js ''not json at all'') = JNull
   \<and> JSON_parse (js ''{\"a\": [1,2,3]}'') =
       Some (JObject [(js ''a'', JArray [JNumber 1, JNumber 2, JNumber 3])])
   \<and> extractJSON (js ''{\"a\": [1,2,3]}'') =
       JObject [(js ''a'', JArray [JNumber 1, JNumber 2, JNumber 3])]"
  using extractJSON_spec[of t] extractJSON_direct[of t v] extractJSON_not_json
    parse_sample_object extractJSON_direct[OF parse_sample_object]
  unfolding extract_spec_def by blast

theorem extractJSON_strategy_order_witness:
  "JSON_parse (js ''[1]'') = Some (JArray [JNumber 1])
   \<and> extractJSON (js ''[1]'') = JArray [JNumber 1]
   \<and> extractJSON (js ''[1]'') =
       first_success
         [JSON_parse (js ''[1]''),
          Option.bind (fence_interior (js ''[1]'')) JSON_parse,
          Option.bind (outer_span 123 125 (js ''[1]'')) JSON_parse,
          Option.bind (outer_span 91 93 (js ''[1]'')) JSON_parse]"
proof -
  have p: "JSON_parse (js ''[1]'') = Some (JArray [JNumber 1])"
    by (simp add: json_eval)
  from extractJSON_strategy_order[of "js ''[1]''" "JArray [JNumber 1]"] p
  show ?thesis by blast
qed

section \<open>JSON wrapped in a fenced block or in prose\<close>

lemma outer_span_wrapped:
  assumes "a \<notin> set pre" "b \<notin> set post"
  shows "outer_span a b (pre @ (a # mid @ [b]) @ post) = Some (a # mid @ [b])"
proof -
  have "dropWhile (\<lambda>c. c \<noteq> a) (pre @ (a # mid @ [b] @ post))
        = dropWhile (\<lambda>c. c \<noteq> a) (a # mid @ [b] @ post)"
    by (rule dropWhile_append2) (use assms(1) in auto)
  then have "dropWhile (\<lambda>c. c \<noteq> a) (pre @ (a # mid @ [b]) @ post) = a # mid @ [b] @ post"
    by simp
  moreover have "rev (dropWhile (\<lambda>c. c \<noteq> b) (rev (mid @ [b] @ post))) = mid @ [b]"
  proof -
    have "dropWhile (\<lambda>c. c \<noteq> b) (rev post @ (b # rev mid))
          = dropWhile (\<lambda>c. c \<noteq> b) (b # rev mid)"
      by (rule dropWhile_append2) (use assms(2) in auto)
    then show ?thesis by simp
  qed
  ultimately show ?thesis by (simp add: outer_span_def)
qed

lemma trim_exact:
  assumes "\<forall>c \<in> set w1. is_space c" "\<forall>c \<in> set w2. is_space c"
    and "s \<noteq> []" "\<not> is_space (hd s)" "\<not> is_space (last s)"
  shows "trim (w1 @ s @ w2) = s"
proof -
  have "dropWhile is_space (w1 @ s @ w2) = dropWhile is_space (s @ w2)"
    by (rule dropWhile_append2) (use assms(1) in auto)
  then have 1: "dropWhile is_space (w1 @ s @ w2) = s @ w2"
    using assms(3,4) by (cases s) simp_all
  have 2: "dropWhile is_space (rev w2 @ rev s) = rev s"
  proof -
    have "dropWhile is_space (rev w2 @ rev s) = dropWhile is_space (rev s)"
      by (rule dropWhile_append2) (use assms(2) in auto)
    moreover have "hd (rev s) = last s" using assms(3) by (simp add: hd_rev)
    then have "dropWhile is_space (rev s) = rev s"
      using assms(5) by (simp add: dropWhile_eq_self_iff)
    ultimately show ?thesis by simp
  qed
  show ?thesis unfolding trim_def 1 by (simp add: 2)
qed

lemma parse_value_j: "parse_value (106 # cs) = None"
  by (subst parse_value.simps)
     (simp add: js_def starts_with_def parse_number_def parse_int_part_def is_digit_def)

lemma JSON_parse_j: "JSON_parse (106 # cs) = None"
  by (simp add: JSON_parse_def skip_ws_def is_json_ws_def parse_value_j)

lemma strip_tag_interior:
  assumes "tag = [] \<or> tag = js ''json''" "\<forall>c \<in> set w1. is_space c"
    and "JSON_parse s = Some v" "s \<noteq> []"
  shows "strip_tag (tag @ w1 @ s @ x) = w1 @ s @ x"
proof (cases "tag = []")
  case False
  with assms(1) show ?thesis by (simp add: strip_tag_def starts_with_def js_def)
next
  case True
  have "hd (w1 @ s @ x) \<noteq> 106"
  proof (cases w1)
    case Nil
    from assms(3,4) have "hd s \<noteq> 106" by (cases s) (auto simp: JSON_parse_j)
    with Nil assms(4) show ?thesis by simp
  next
    case (Cons c cs)
    with assms(2) have "is_space c" by simp
    then have "c \<noteq> 106" by (auto simp: is_space_def)
    with Cons show ?thesis by simp
  qed
  moreover have "w1 @ s @ x \<noteq> []" using assms(4) by simp
  ultimately have "\<not> starts_with (w1 @ s @ x) (js ''json'')"
    by (cases "w1 @ s @ x") (auto simp: starts_with_def js_def)
  with True show ?thesis by (simp add: strip_tag_def)
qed

section \<open>What the parser of a JSON value reads\<close>

lemma consumed_here: "e \<noteq> 96 \<Longrightarrow> consumed (e # r) r"
  unfolding consumed_def by (intro exI[of _ "[]"] exI[of _ e]) simp

lemma consumed_Cons: "consumed s r \<Longrightarrow> consumed (c # s) r"
  unfolding consumed_def by (metis append_Cons)

lemma consumed_append: "consumed s r \<Longrightarrow> consumed (p @ s) r"
  unfolding consumed_def by (metis append_assoc)

lemma consumed_drop: "consumed (drop n s) r \<Longrightarrow> consumed s r"
  using consumed_append[of "drop n s" r "take n s"] by simp

lemma consumed_skip_ws: "consumed (skip_ws s) r \<Longrightarrow> consumed s r"
  using consumed_append[of "skip_ws s" r "takeWhile is_json_ws s"] by (simp add: skip_ws_def)

lemma consumed_trans: "consumed s r \<Longrightarrow> consumed r r' \<Longrightarrow> consumed s r'"
  unfolding consumed_def by (metis append_assoc append_Cons)

lemma consumed_dropWhile:
  "s \<noteq> [] \<Longrightarrow> P (hd s) \<Longrightarrow> (\<And>c. P c \<Longrightarrow> c \<noteq> 96) \<Longrightarrow> consumed s (dropWhile P s)"
proof -
  assume a: "s \<noteq> []" "P (hd s)" "\<And>c. P c \<Longrightarrow> c \<noteq> 96"
  then have ne: "takeWhile P s \<noteq> []" by (cases s) auto
  have "last (takeWhile P s) \<in> set (takeWhile P s)" using ne by simp
  then have "P (last (takeWhile P s))" by (meson set_takeWhileD)
  then have "last (takeWhile P s) \<noteq> 96" by (rule a(3))
  moreover have "s = butlast (takeWhile P s) @ last (takeWhile P s) # dropWhile P s"
    using ne by (metis append_butlast_last_id append.assoc append_Cons append_Nil takeWhile_dropWhile_id)
  ultimately show ?thesis unfolding consumed_def by blast
qed

lemma hex4_rest: "hex4 s = Some (n, r) \<Longrightarrow> \<exists>a b c d. s = a # b # c # d # r"
  by (auto simp: hex4_def split: list.splits option.splits)

lemma parse_chars_consumed: "parse_chars s = Some (str, r) \<Longrightarrow> consumed s r"
proof (induction s arbitrary: str r rule: parse_chars.induct)
  case 1
  then show ?case by simp
next
  case (2 c cs)
  show ?case
  proof (cases "c = 34")
    case True
    with "2.prems" show ?thesis by (simp add: consumed_here)
  next
    case c34: False
    show ?thesis
    proof (cases "c = 92")
      case False
      with c34 "2.prems" "2.IH"(3) show ?thesis
        by (force split: if_splits option.splits intro: consumed_Cons)
    next
      case c92: True
      then obtain e es where cs: "cs = e # es"
        using "2.prems" by (cases cs) auto
      show ?thesis
      proof (cases "e = 117")
        case True
        with c34 c92 cs "2.prems" obtain n r0 str' where h: "hex4 es = Some (n, r0)"
          "length r0 < length es" "parse_chars r0 = Some (str', r)"
          by (auto split: if_splits option.splits)
        from "2.IH"(1)[OF c34 c92 cs True h(1) refl h(2) h(3)] have "consumed r0 r" .
        moreover from hex4_rest[OF h(1)] obtain a b c' d where "es = a # b # c' # d # r0" by blast
        ultimately show ?thesis unfolding cs by (auto intro!: consumed_Cons)
      next
        case False
        with c34 c92 cs "2.prems" "2.IH"(2) show ?thesis
          by (force split: if_splits option.splits intro: consumed_Cons)
      qed
    qed
  qed
qed

lemma digit_not_tick: "is_digit c \<Longrightarrow> c \<noteq> 96"
  by (auto simp: is_digit_def)

lemma consumed_digits: "takeWhile is_digit t \<noteq> [] \<Longrightarrow> consumed t (dropWhile is_digit t)"
proof -
  assume a: "takeWhile is_digit t \<noteq> []"
  then have "t \<noteq> []" by auto
  moreover from a have "is_digit (hd t)" by (cases t) (auto split: if_splits)
  ultimately show ?thesis by (rule consumed_dropWhile) (rule digit_not_tick)
qed

lemma parse_int_part_consumed: "parse_int_part t = Some (i, r) \<Longrightarrow> consumed t r"
proof -
  assume a: "parse_int_part t = Some (i, r)"
  then obtain c cs where t: "t = c # cs" by (cases t) (auto simp: parse_int_part_def)
  show ?thesis
  proof (cases "c = 48")
    case True
    with a t show ?thesis by (simp add: parse_int_part_def consumed_here)
  next
    case False
    with a t have d: "is_digit c" and r: "r = dropWhile is_digit t"
      by (auto simp: parse_int_part_def split: if_splits)
    from d t have "takeWhile is_digit t \<noteq> []" by simp
    from consumed_digits[OF this] r show ?thesis by simp
  qed
qed

lemma parse_frac_consumed: "parse_frac s = Some (f, r) \<Longrightarrow> r = s \<or> consumed s r"
  by (cases s) (auto simp: parse_frac_def Let_def split: if_splits intro: consumed_Cons consumed_digits)

lemma parse_exp_consumed: "parse_exp s = Some (e, r) \<Longrightarrow> r = s \<or> consumed s r"
proof -
  assume a: "parse_exp s = Some (e, r)"
  show ?thesis
  proof (cases s)
    case Nil
    with a show ?thesis by (simp add: parse_exp_def)
  next
    case (Cons c cs)
    show ?thesis
    proof (cases "c = 101 \<or> c = 69")
      case False
      with a Cons show ?thesis by (simp add: parse_exp_def)
    next
      case True
      define t where "t = (case cs of [] \<Rightarrow> cs | d # ds \<Rightarrow> if d = 45 \<or> d = 43 then ds else cs)"
      have ct: "\<And>x. consumed t x \<Longrightarrow> consumed cs x"
        by (cases cs) (auto simp: t_def intro: consumed_Cons split: if_splits)
      from a Cons True have "takeWhile is_digit t \<noteq> [] \<and> r = dropWhile is_digit t"
        by (cases cs) (auto simp: parse_exp_def t_def Let_def split: if_splits)
      with consumed_digits[of t] have "consumed t r" by simp
      then have "consumed cs r" by (rule ct)
      then show ?thesis unfolding Cons by (auto intro: consumed_Cons)
    qed
  qed
qed

lemma parse_number_consumed: "parse_number s = Some (v, r) \<Longrightarrow> consumed s r"
proof -
  assume a: "parse_number s = Some (v, r)"
  define t where "t = (case s of [] \<Rightarrow> s | c # cs \<Rightarrow> if c = 45 then cs else s)"
  have st: "\<And>x. consumed t x \<Longrightarrow> consumed s x"
    by (cases s) (auto simp: t_def intro: consumed_Cons split: if_splits)
  from a obtain i r1 f r2 e where p: "parse_int_part t = Some (i, r1)"
    "parse_frac r1 = Some (f, r2)" "parse_exp r2 = Some (e, r)"
    by (cases s) (auto simp: parse_number_def t_def Let_def split: option.splits if_splits)
  from parse_int_part_consumed[OF p(1)] have 1: "consumed t r1" .
  from parse_frac_consumed[OF p(2)] 1 have 2: "consumed t r2" by (auto intro: consumed_trans)
  from parse_exp_consumed[OF p(3)] 2 have 3: "consumed t r" by (auto intro: consumed_trans)
  then show ?thesis by (rule st)
qed

lemma starts_with_consumed:
  assumes "starts_with s (p @ [e])" "e \<noteq> 96"
  shows "consumed s (drop (Suc (length p)) s)"
proof -
  from assms(1) have "take (Suc (length p)) s = p @ [e]" by (simp add: starts_with_def)
  then have "s = p @ e # drop (Suc (length p)) s"
    by (metis append_take_drop_id append_assoc append_Cons append_Nil)
  with assms(2) show ?thesis unfolding consumed_def by blast
qed

lemma parse_consumed:
  "parse_value s = Some (v, r) \<Longrightarrow> consumed s r"
  "parse_elements s2 = Some (vs, r2) \<Longrightarrow> consumed s2 r2"
  "parse_members s3 = Some (kvs, r3) \<Longrightarrow> consumed s3 r3"
proof (induction s and s2 and s3 arbitrary: v r and vs r2 and kvs r3
    rule: parse_value_parse_elements_parse_members.induct)
  case (1 s)
  from "1.prems" obtain c cs where s: "s = c # cs"
    by (subst (asm) parse_value.simps) (auto split: list.splits)
  show ?case
  proof (cases "c = 123")
    case True
    from "1.prems" s True obtain d ds where d: "skip_ws cs = d # ds"
      by (subst (asm) parse_value.simps) (auto split: list.splits)
    show ?thesis
    proof (cases "d = 125")
      case d125: True
      with "1.prems" s True d have "r = ds" by (subst (asm) parse_value.simps) simp
      with d d125 have "consumed (skip_ws cs) r" by (simp add: consumed_here)
      then have "consumed cs r" by (rule consumed_skip_ws)
      then show ?thesis unfolding s by (rule consumed_Cons)
    next
      case False
      with "1.prems" s True d obtain kvs where "parse_members (skip_ws cs) = Some (kvs, r)"
        by (subst (asm) parse_value.simps) (auto split: option.splits)
      from "1.IH"(1)[OF s True d False this] have "consumed cs r" by (rule consumed_skip_ws)
      then show ?thesis unfolding s by (rule consumed_Cons)
    qed
  next
    case n123: False
    show ?thesis
    proof (cases "c = 91")
      case True
      from "1.prems" s n123 True obtain d ds where d: "skip_ws cs = d # ds"
        by (subst (asm) parse_value.simps) (auto split: list.splits)
      show ?thesis
      proof (cases "d = 93")
        case d93: True
        with "1.prems" s n123 True d have "r = ds" by (subst (asm) parse_value.simps) simp
        with d d93 have "consumed (skip_ws cs) r" by (simp add: consumed_here)
        then have "consumed cs r" by (rule consumed_skip_ws)
      then show ?thesis unfolding s by (rule consumed_Cons)
      next
        case False
        with "1.prems" s n123 True d obtain vs where "parse_elements (skip_ws cs) = Some (vs, r)"
          by (subst (asm) parse_value.simps) (auto split: option.splits)
        from "1.IH"(2)[OF s n123 True d False this] have "consumed cs r"
          by (rule consumed_skip_ws)
        then show ?thesis unfolding s by (rule consumed_Cons)
      qed
    next
      case n91: False
      show ?thesis
      proof (cases "c = 34")
        case True
        with "1.prems" s n123 n91 obtain str where "parse_chars cs = Some (str, r)"
          by (subst (asm) parse_value.simps) (auto split: option.splits)
        from parse_chars_consumed[OF this] show ?thesis unfolding s by (rule consumed_Cons)
      next
        case n34: False
        from "1.prems" s n123 n91 n34 have
          "(starts_with s (js ''true'') \<and> r = drop 4 s)
           \<or> (starts_with s (js ''false'') \<and> r = drop 5 s)
           \<or> (starts_with s (js ''null'') \<and> r = drop 4 s)
           \<or> parse_number s = Some (v, r)"
          by (subst (asm) parse_value.simps) (auto split: if_splits)
        then show ?thesis
        proof (elim disjE conjE)
          assume a: "starts_with s (js ''true'')" "r = drop 4 s"
          have "js ''true'' = [116, 114, 117] @ [101]" by (simp add: js_def)
          from starts_with_consumed[of s "[116, 114, 117]" 101] a(1)[unfolded this]
          show ?thesis unfolding a(2) by (simp add: eval_nat_numeral)
        next
          assume a: "starts_with s (js ''false'')" "r = drop 5 s"
          have "js ''false'' = [102, 97, 108, 115] @ [101]" by (simp add: js_def)
          from starts_with_consumed[of s "[102, 97, 108, 115]" 101] a(1)[unfolded this]
          show ?thesis unfolding a(2) by (simp add: eval_nat_numeral)
        next
          assume a: "starts_with s (js ''null'')" "r = drop 4 s"
          have "js ''null'' = [110, 117, 108] @ [108]" by (simp add: js_def)
          from starts_with_consumed[of s "[110, 117, 108]" 108] a(1)[unfolded this]
          show ?thesis unfolding a(2) by (simp add: eval_nat_numeral)
        next
          assume "parse_number s = Some (v, r)"
          then show ?thesis by (rule parse_number_consumed)
        qed
      qed
    qed
  qed
next
  case (2 s)
  from "2.prems" obtain v r where v: "parse_value s = Some (v, r)" and l: "length r < length s"
    by (subst (asm) parse_elements.simps) (auto split: option.splits if_splits)
  from "2.prems" v l obtain d ds where d: "skip_ws r = d # ds"
    by (subst (asm) parse_elements.simps) (auto split: list.splits)
  from "2.IH"(1)[OF v] have c1: "consumed s r" .
  show ?case
  proof (cases "d = 44")
    case True
    with "2.prems" v l d obtain vs' where e: "parse_elements (skip_ws ds) = Some (vs', r2)"
      by (subst (asm) parse_elements.simps) (auto split: option.splits)
    from "2.IH"(2)[OF v refl l d True e] have "consumed (skip_ws ds) r2" .
    then have "consumed ds r2" by (rule consumed_skip_ws)
    then have "consumed (skip_ws r) r2" unfolding d by (rule consumed_Cons)
    then have "consumed r r2" by (rule consumed_skip_ws)
    with c1 show ?thesis by (rule consumed_trans)
  next
    case False
    with "2.prems" v l d have "d = 93 \<and> r2 = ds"
      by (subst (asm) parse_elements.simps) (auto split: if_splits)
    with d have "consumed (skip_ws r) r2" by (simp add: consumed_here)
    then have "consumed r r2" by (rule consumed_skip_ws)
    with c1 show ?thesis by (rule consumed_trans)
  qed
next
  case (3 s)
  from "3.prems" obtain cs where s: "s = 34 # cs"
    by (subst (asm) parse_members.simps) (auto split: list.splits if_splits)
  from "3.prems" s obtain k r where k: "parse_chars cs = Some (k, r)"
    by (subst (asm) parse_members.simps) (auto split: option.splits)
  from "3.prems" s k obtain r1 where r1: "skip_ws r = 58 # r1"
    by (subst (asm) parse_members.simps) (auto split: list.splits if_splits)
  from "3.prems" s k r1 obtain v r2' where v: "parse_value (skip_ws r1) = Some (v, r2')"
    and l: "length r2' < length s"
    by (subst (asm) parse_members.simps) (auto split: option.splits if_splits)
  from "3.prems" s k r1 v l obtain d ds where d: "skip_ws r2' = d # ds"
    by (subst (asm) parse_members.simps) (auto split: list.splits)
  from "3.IH"(1)[OF s refl k refl r1 refl v] have "consumed (skip_ws r1) r2'" .
  then have "consumed r1 r2'" by (rule consumed_skip_ws)
  then have "consumed (skip_ws r) r2'" unfolding r1 by (rule consumed_Cons)
  then have "consumed r r2'" by (rule consumed_skip_ws)
  with parse_chars_consumed[OF k] have "consumed cs r2'" by (rule consumed_trans)
  then have c1: "consumed s r2'" unfolding s by (rule consumed_Cons)
  show ?case
  proof (cases "d = 44")
    case True
    with "3.prems" s k r1 v l d obtain kvs' where e: "parse_members (skip_ws ds) = Some (kvs', r3)"
      by (subst (asm) parse_members.simps) (auto split: option.splits)
    from "3.IH"(2)[OF s refl k refl r1 refl v refl l d True e] have "consumed (skip_ws ds) r3" .
    then have "consumed ds r3" by (rule consumed_skip_ws)
    then have "consumed (skip_ws r2') r3" unfolding d by (rule consumed_Cons)
    then have "consumed r2' r3" by (rule consumed_skip_ws)
    with c1 show ?thesis by (rule consumed_trans)
  next
    case False
    with "3.prems" s k r1 v l d have "d = 125 \<and> r3 = ds"
      by (subst (asm) parse_members.simps) (auto split: if_splits)
    with d have "consumed (skip_ws r2') r3" by (simp add: consumed_here)
    then have "consumed r2' r3" by (rule consumed_skip_ws)
    with c1 show ?thesis by (rule consumed_trans)
  qed
qed

lemma JSON_parse_last: "JSON_parse s = Some v \<Longrightarrow> s \<noteq> [] \<and> last s \<noteq> 96"
proof -
  assume a: "JSON_parse s = Some v"
  then obtain r where p: "parse_value (skip_ws s) = Some (v, r)" and w: "skip_ws r = []"
    by (auto simp: JSON_parse_def split: option.splits prod.splits if_splits)
  from parse_consumed(1)[OF p] have "consumed s r" by (rule consumed_skip_ws)
  then obtain u e where s: "s = u @ e # r" "e \<noteq> 96" unfolding consumed_def by blast
  from w have ws: "\<forall>c \<in> set r. is_json_ws c" by (simp add: skip_ws_def dropWhile_eq_Nil_conv)
  show ?thesis
  proof (cases "r = []")
    case True
    with s show ?thesis by simp
  next
    case False
    then have "last s = last r" "last r \<in> set r" using s by simp_all
    with ws have "is_json_ws (last s)" by simp
    then show ?thesis using s by (auto simp: is_json_ws_def)
  qed
qed

section \<open>The first fenced block\<close>

lemma has_fence_other: "c \<noteq> 96 \<Longrightarrow> has_fence (c # cs) = has_fence cs"
  by (auto dest: at_fence_Cons)

lemma has_fence_prefix: "\<forall>c \<in> set w. c \<noteq> 96 \<Longrightarrow> has_fence (w @ x) = has_fence x"
  by (induction w) (simp_all add: has_fence_other del: has_fence.simps(2))

lemma has_fence_ticks: "\<not> has_fence [96, 96]"
  by (simp add: at_fence_def starts_with_def)

lemma at_fence_long: "at_fence (a # b # c # x) = (a = 96 \<and> b = 96 \<and> c = 96)"
  by (simp add: at_fence_def starts_with_def)

lemma has_fence_append:
  "s \<noteq> [] \<Longrightarrow> last s \<noteq> 96 \<Longrightarrow> has_fence (s @ y) = (has_fence s \<or> has_fence y)"
proof (induction s)
  case Nil
  then show ?case by simp
next
  case (Cons c cs)
  show ?case
  proof (cases cs)
    case Nil
    with Cons.prems have "c \<noteq> 96" by simp
    with Nil show ?thesis by (simp add: has_fence_other at_fence_def starts_with_def)
  next
    case (Cons d ds)
    with Cons.prems have l: "last cs \<noteq> 96" "cs \<noteq> []" by simp_all
    note IH = Cons.IH[OF l(2) l(1)]
    have "at_fence (c # cs @ y) = at_fence (c # cs)"
    proof (cases ds)
      case Nil
      with Cons l have "d \<noteq> 96" by simp
      with Cons Nil show ?thesis by (auto simp: at_fence_def starts_with_def)
    next
      case (Cons e es)
      with \<open>cs = d # ds\<close> show ?thesis by (simp add: at_fence_long)
    qed
    with IH show ?thesis by auto
  qed
qed

lemma at_fence_closing:
  "p \<noteq> [] \<Longrightarrow> at_fence (p @ [96, 96, 96] @ x) = at_fence (p @ [96, 96])"
proof -
  assume "p \<noteq> []"
  then obtain a p1 where p: "p = a # p1" by (cases p) auto
  show ?thesis
  proof (cases p1)
    case Nil
    with p show ?thesis by (simp add: at_fence_def starts_with_def)
  next
    case (Cons b p2)
    with p show ?thesis by (cases p2) (simp_all add: at_fence_def starts_with_def)
  qed
qed

lemma after_fence_first:
  "\<not> has_fence (pre @ [96, 96]) \<Longrightarrow> after_fence (pre @ [96, 96, 96] @ x) = Some x"
proof (induction pre)
  case Nil
  show ?case by (simp add: at_fence_def starts_with_def)
next
  case (Cons c cs)
  from Cons.prems have 1: "\<not> at_fence ((c # cs) @ [96, 96])" "\<not> has_fence (cs @ [96, 96])"
    by simp_all
  from 1(1) at_fence_closing[of "c # cs" x] have "\<not> at_fence ((c # cs) @ [96, 96, 96] @ x)"
    by simp
  with Cons.IH[OF 1(2)] show ?case by simp
qed

lemma before_fence_first:
  "\<not> has_fence (u @ [96, 96]) \<Longrightarrow> before_fence (u @ [96, 96, 96] @ x) = Some u"
proof (induction u)
  case Nil
  show ?case by (simp add: at_fence_def starts_with_def)
next
  case (Cons c cs)
  from Cons.prems have 1: "\<not> at_fence ((c # cs) @ [96, 96])" "\<not> has_fence (cs @ [96, 96])"
    by simp_all
  from 1(1) at_fence_closing[of "c # cs" x] have "\<not> at_fence ((c # cs) @ [96, 96, 96] @ x)"
    by simp
  with Cons.IH[OF 1(2)] show ?case by simp
qed

lemma no_fence_before_closing:
  assumes "\<not> has_fence s" "s = [] \<or> last s \<noteq> 96"
  shows "\<not> has_fence (s @ [96, 96])"
proof (cases "s = []")
  case True
  then show ?thesis by (simp add: has_fence_ticks del: has_fence.simps)
next
  case False
  with assms(2) have "last s \<noteq> 96" by simp
  from has_fence_append[OF False this, of "[96, 96]"] assms(1) has_fence_ticks
  show ?thesis by simp
qed

lemma fence_interior_wrapped:
  assumes "tag = [] \<or> tag = js ''json''"
    and "\<forall>c \<in> set w1. is_space c" "\<forall>c \<in> set w2. is_space c"
    and "JSON_parse s = Some v" "\<not> is_space (hd s)" "\<not> is_space (last s)"
    and "\<not> has_fence pre" "pre = [] \<or> last pre \<noteq> 96" "\<not> has_fence s"
  shows "fence_interior (pre @ [96, 96, 96] @ tag @ w1 @ s @ w2 @ [96, 96, 96] @ post) = Some s"
proof -
  from JSON_parse_last[OF assms(4)] have s: "s \<noteq> []" "last s \<noteq> 96" by simp_all
  have a: "after_fence (pre @ [96, 96, 96] @ tag @ w1 @ s @ w2 @ [96, 96, 96] @ post)
           = Some (tag @ w1 @ s @ w2 @ [96, 96, 96] @ post)"
    by (rule after_fence_first) (rule no_fence_before_closing[OF assms(7,8)])
  have b: "strip_tag (tag @ w1 @ s @ w2 @ [96, 96, 96] @ post) = w1 @ s @ w2 @ [96, 96, 96] @ post"
    by (rule strip_tag_interior) (rule assms s)+
  have w: "\<forall>c \<in> set w1. c \<noteq> 96" "\<forall>c \<in> set w2. c \<noteq> 96"
    using assms(2,3) by (auto dest: space_not_tick)
  have "has_fence ((w1 @ s @ w2) @ [96, 96]) = has_fence (s @ (w2 @ [96, 96]))"
    using has_fence_prefix[OF w(1), of "s @ (w2 @ [96, 96])"] by simp
  also have "\<dots> = (has_fence s \<or> has_fence (w2 @ [96, 96]))"
    by (rule has_fence_append) (rule s)+
  also have "has_fence (w2 @ [96, 96]) = has_fence [96, 96]"
    by (rule has_fence_prefix) (rule w(2))
  finally have "\<not> has_fence ((w1 @ s @ w2) @ [96, 96])"
    using assms(9) has_fence_ticks by simp
  from before_fence_first[OF this, of post]
  have c: "before_fence (w1 @ s @ w2 @ [96, 96, 96] @ post) = Some (w1 @ s @ w2)" by simp
  show ?thesis
    unfolding fence_interior_def a option.case b c trim_exact[OF assms(2,3) s(1) assms(5,6)] ..
qed

lemmas spec_eval = fence_interior_def at_fence_def strip_tag_def outer_span_def trim_def is_space_def

text \<open>
  C7, as stated, fails, because each strategy takes the first candidate span it finds and the
  result of the first strategy that parses. Five texts that hold a valid JSON value in prose
  or in a fenced block: in \<^verbatim>\<open>Use {name}: {"a":1}\<close> the prose holds a brace, the span from
  the first \<^verbatim>\<open>{\<close> to the last \<^verbatim>\<open>}\<close> is \<^verbatim>\<open>{name}: {"a":1}\<close>, and the result is
  \<^verbatim>\<open>null\<close>; a backtick right before the fenced block of \<^verbatim>\<open>1\<close> moves the first fence
  one place to the left, and the result is \<^verbatim>\<open>null\<close>; a fenced JSON string that itself
  holds three backticks is cut at them, and the result is \<^verbatim>\<open>null\<close>; and for the array
  \<^verbatim>\<open>[{"a":1}]\<close> between prose the brace strategy, which comes first, yields the object
  inside the array; and a number in prose is found by no strategy.
\<close>

theorem extractJSON_wrapped_counterexample:
  "JSON_parse (js ''{\"a\":1}'') = Some (JObject [(js ''a'', JNumber 1)])
   \<and> extractJSON (js ''Use {name}: '' @ js ''{\"a\":1}'') = JNull
   \<and> JSON_parse (js ''1'') = Some (JNumber 1)
   \<and> extractJSON (js ''`'' @ js ''```json'' @ [10] @ js ''1'' @ [10] @ js ''```'') = JNull
   \<and> JSON_parse (js ''\"```\"'') = Some (JString (js ''```''))
   \<and> extractJSON (js ''```'' @ [10] @ js ''\"```\"'' @ [10] @ js ''```'') = JNull
   \<and> JSON_parse (js ''[{\"a\":1}]'') = Some (JArray [JObject [(js ''a'', JNumber 1)]])
   \<and> extractJSON (js ''Here: '' @ js ''[{\"a\":1}]'' @ js '' ok'') = JObject [(js ''a'', JNumber 1)]
   \<and> JSON_parse (js ''42'') = Some (JNumber 42)
   \<and> extractJSON (js ''The answer is '' @ js ''42'') = JNull"
  by (simp add: extract_eval json_eval)

text \<open>
  C7, amended. Let the raw text not be valid JSON as a whole.
  (1) If it is prose in which no fence begins (it holds no three backticks in a row and does
  not end with a backtick; single backticks are allowed), a fence, the optional tag
  \<^verbatim>\<open>json\<close>, white space, a JSON text without white space at its ends that holds no three
  backticks in a row, white space, a fence, and anything after that, then \<open>extractJSON\<close>
  returns the value of that JSON text.
  (2) If no fenced interior of it parses and it is a JSON object between prose with no
  \<^verbatim>\<open>{\<close> before the object and no \<^verbatim>\<open>}\<close> after it, then \<open>extractJSON\<close> returns the
  value of the object.
  (3) If no fenced interior and no outer brace span of it parses and it is a JSON array between
  prose with no \<^verbatim>\<open>[\<close> before the array and no \<^verbatim>\<open>]\<close> after it, then
  \<open>extractJSON\<close> returns the value of the array.
  The example of the specification, \<^verbatim>\<open>Sure!\<close> followed by a fenced \<^verbatim>\<open>{"a":1}\<close>, yields
  the object with \<^verbatim>\<open>a\<close> = 1.
\<close>

theorem extractJSON_wrapped:
  "(JSON_parse s = Some v \<and> \<not> is_space (hd s) \<and> \<not> is_space (last s) \<and> \<not> has_fence s
      \<and> \<not> has_fence pre \<and> (pre = [] \<or> last pre \<noteq> 96) \<and> (tag = [] \<or> tag = js ''json'')
      \<and> (\<forall>c \<in> set w1. is_space c) \<and> (\<forall>c \<in> set w2. is_space c)
      \<and> JSON_parse (pre @ [96, 96, 96] @ tag @ w1 @ s @ w2 @ [96, 96, 96] @ post) = None
    \<longrightarrow> extractJSON (pre @ [96, 96, 96] @ tag @ w1 @ s @ w2 @ [96, 96, 96] @ post) = v)
   \<and> (JSON_parse (123 # mid @ [125]) = Some v' \<and> 123 \<notin> set pre' \<and> 125 \<notin> set post'
      \<and> JSON_parse (pre' @ (123 # mid @ [125]) @ post') = None
      \<and> Option.bind (fence_interior (pre' @ (123 # mid @ [125]) @ post')) JSON_parse = None
    \<longrightarrow> extractJSON (pre' @ (123 # mid @ [125]) @ post') = v')
   \<and> (JSON_parse (91 # mid' @ [93]) = Some v'' \<and> 91 \<notin> set pre'' \<and> 93 \<notin> set post''
      \<and> JSON_parse (pre'' @ (91 # mid' @ [93]) @ post'') = None
      \<and> Option.bind (fence_interior (pre'' @ (91 # mid' @ [93]) @ post'')) JSON_parse = None
      \<and> Option.bind (outer_span 123 125 (pre'' @ (91 # mid' @ [93]) @ post'')) JSON_parse = None
    \<longrightarrow> extractJSON (pre'' @ (91 # mid' @ [93]) @ post'') = v'')
   \<and> extractJSON (js ''Sure! ```json\<newline>{\"a\":1}\<newline>```'') = JObject [(js ''a'', JNumber 1)]"
proof (intro conjI impI)
  assume a: "JSON_parse s = Some v \<and> \<not> is_space (hd s) \<and> \<not> is_space (last s) \<and> \<not> has_fence s
      \<and> \<not> has_fence pre \<and> (pre = [] \<or> last pre \<noteq> 96) \<and> (tag = [] \<or> tag = js ''json'')
      \<and> (\<forall>c \<in> set w1. is_space c) \<and> (\<forall>c \<in> set w2. is_space c)
      \<and> JSON_parse (pre @ [96, 96, 96] @ tag @ w1 @ s @ w2 @ [96, 96, 96] @ post) = None"
  then have "fence_interior (pre @ [96, 96, 96] @ tag @ w1 @ s @ w2 @ [96, 96, 96] @ post) = Some s"
    by (intro fence_interior_wrapped[where v = v]) simp_all
  with a show "extractJSON (pre @ [96, 96, 96] @ tag @ w1 @ s @ w2 @ [96, 96, 96] @ post) = v"
    unfolding extractJSON_spec extract_spec_def by simp
next
  assume a: "JSON_parse (123 # mid @ [125]) = Some v' \<and> 123 \<notin> set pre' \<and> 125 \<notin> set post'
      \<and> JSON_parse (pre' @ (123 # mid @ [125]) @ post') = None
      \<and> Option.bind (fence_interior (pre' @ (123 # mid @ [125]) @ post')) JSON_parse = None"
  then have "outer_span 123 125 (pre' @ (123 # mid @ [125]) @ post') = Some (123 # mid @ [125])"
    by (intro outer_span_wrapped) simp_all
  with a show "extractJSON (pre' @ (123 # mid @ [125]) @ post') = v'"
    unfolding extractJSON_spec extract_spec_def by simp
next
  assume a: "JSON_parse (91 # mid' @ [93]) = Some v'' \<and> 91 \<notin> set pre'' \<and> 93 \<notin> set post''
      \<and> JSON_parse (pre'' @ (91 # mid' @ [93]) @ post'') = None
      \<and> Option.bind (fence_interior (pre'' @ (91 # mid' @ [93]) @ post'')) JSON_parse = None
      \<and> Option.bind (outer_span 123 125 (pre'' @ (91 # mid' @ [93]) @ post'')) JSON_parse = None"
  then have "outer_span 91 93 (pre'' @ (91 # mid' @ [93]) @ post'') = Some (91 # mid' @ [93])"
    by (intro outer_span_wrapped) simp_all
  with a show "extractJSON (pre'' @ (91 # mid' @ [93]) @ post'') = v''"
    unfolding extractJSON_spec extract_spec_def by simp
next
  show "extractJSON (js ''Sure! ```json\<newline>{\"a\":1}\<newline>```'') = JObject [(js ''a'', JNumber 1)]"
    by (simp add: extract_eval json_eval)
qed

theorem extractJSON_wrapped_witness:
  "extractJSON (js ''Use `x`: '' @ [96, 96, 96] @ js ''json'' @ [10] @ js ''{\"a\":\"`b`\"}'' @ [10]
                @ [96, 96, 96] @ js '' done'')
     = JObject [(js ''a'', JString (js ''`b`''))]
   \<and> extractJSON (js ''Here: '' @ (123 # js ''\"a\":1'' @ [125]) @ js '' ok'') = JObject [(js ''a'', JNumber 1)]
   \<and> extractJSON (js ''Here: '' @ (91 # js ''1, 2'' @ [93]) @ js '' ok'') = JArray [JNumber 1, JNumber 2]"
proof -
  have 1: "JSON_parse (js ''{\"a\":\"`b`\"}'') = Some (JObject [(js ''a'', JString (js ''`b`''))])"
    by (simp add: json_eval)
  have 2: "JSON_parse (js ''Use `x`: '' @ [96, 96, 96] @ js ''json'' @ [10] @ js ''{\"a\":\"`b`\"}''
             @ [10] @ [96, 96, 96] @ js '' done'') = None"
    by (simp add: json_eval)
  have 3: "JSON_parse (123 # js ''\"a\":1'' @ [125]) = Some (JObject [(js ''a'', JNumber 1)])"
    by (simp add: json_eval)
  have 4: "JSON_parse (js ''Here: '' @ (123 # js ''\"a\":1'' @ [125]) @ js '' ok'') = None"
    by (simp add: json_eval)
  have 5: "Option.bind (fence_interior (js ''Here: '' @ (123 # js ''\"a\":1'' @ [125]) @ js '' ok'')) JSON_parse = None"
    by (simp add: spec_eval json_eval)
  have 6: "JSON_parse (91 # js ''1, 2'' @ [93]) = Some (JArray [JNumber 1, JNumber 2])"
    by (simp add: json_eval)
  have 7: "JSON_parse (js ''Here: '' @ (91 # js ''1, 2'' @ [93]) @ js '' ok'') = None"
    by (simp add: json_eval)
  have 8: "Option.bind (fence_interior (js ''Here: '' @ (91 # js ''1, 2'' @ [93]) @ js '' ok'')) JSON_parse = None"
    by (simp add: spec_eval json_eval)
  have 9: "Option.bind (outer_span 123 125 (js ''Here: '' @ (91 # js ''1, 2'' @ [93]) @ js '' ok'')) JSON_parse = None"
    by (simp add: spec_eval json_eval)
  have 10: "\<not> is_space (hd (js ''{\"a\":\"`b`\"}'')) \<and> \<not> is_space (last (js ''{\"a\":\"`b`\"}''))
     \<and> \<not> has_fence (js ''{\"a\":\"`b`\"}'') \<and> \<not> has_fence (js ''Use `x`: '')
     \<and> last (js ''Use `x`: '') \<noteq> 96
     \<and> (\<forall>c \<in> set [10]. is_space c)"
    by (simp add: js_def is_space_def at_fence_def starts_with_def)
  have 11: "123 \<notin> set (js ''Here: '') \<and> 125 \<notin> set (js '' ok'') \<and> 91 \<notin> set (js ''Here: '') \<and> 93 \<notin> set (js '' ok'')"
    by (simp add: js_def)
  from extractJSON_wrapped[of "js ''{\"a\":\"`b`\"}''" "JObject [(js ''a'', JString (js ''`b`''))]"
      "js ''Use `x`: ''" "js ''json''" "[10]" "[10]" "js '' done''"
      "js ''\"a\":1''" "JObject [(js ''a'', JNumber 1)]"
      "js ''Here: ''" "js '' ok''" "js ''1, 2''" "JArray [JNumber 1, JNumber 2]" "js ''Here: ''" "js '' ok''"]
    1 2 3 4 5 6 7 8 9 10 11
  show ?thesis by blast
qed

section \<open>Saving and loading the configuration\<close>

lemma hex_val_digit: "d < 16 \<Longrightarrow> hex_val (hex_digit d) = Some d"
  by (auto simp: hex_val_def hex_digit_def)

lemma hex_sum: "4096 * (c div 4096) + 256 * (c div 256 mod 16) + 16 * (c div 16 mod 16) + c mod 16 = (c::nat)"
proof -
  have a: "c mod 4096 = 256 * (c div 256 mod 16) + c mod 256"
    using mod_mult2_eq[of c 256 16] by simp
  have b: "c mod 256 = 16 * (c div 16 mod 16) + c mod 16"
    using mod_mult2_eq[of c 16 16] by simp
  have "c = 4096 * (c div 4096) + c mod 4096" by simp
  with a b show ?thesis by linarith
qed

lemma hex4_escape:
  assumes "c < 65536"
  shows "hex4 ([hex_digit (c div 4096), hex_digit (c div 256 mod 16),
                hex_digit (c div 16 mod 16), hex_digit (c mod 16)] @ r) = Some (c, r)"
proof -
  have 1: "c div 4096 < 16" using assms by (simp add: div_less_iff_less_mult)
  show ?thesis using 1 hex_sum[of c] by (simp add: hex4_def hex_val_digit)
qed

lemma parse_unit:
  "parse_chars (quote_unit c @ r) =
     (case parse_chars r of None \<Rightarrow> None | Some (str, r') \<Rightarrow> Some (c # str, r'))"
proof (cases "c < 32 \<or> is_lead c \<or> is_trail c")
  case False
  then show ?thesis by (auto simp: quote_unit_def unescape_def)
next
  case True
  then have lt: "c < 65536" by (auto simp: is_lead_def is_trail_def)
  show ?thesis
  proof (cases "c = 8 \<or> c = 9 \<or> c = 10 \<or> c = 12 \<or> c = 13")
    case True
    then show ?thesis by (auto simp: quote_unit_def unescape_def)
  next
    case False
    with True have q: "quote_unit c = unicode_escape c"
      by (auto simp: quote_unit_def is_lead_def is_trail_def)
    show ?thesis
      unfolding q unicode_escape_def using hex4_escape[OF lt, of r]
      by (simp split: option.splits)
  qed
qed

lemma parse_quote_chars:
  "parse_chars (quote_chars s @ 34 # r) = Some (s, r)"
proof (induction s rule: quote_chars.induct)
  case 1
  show ?case by simp
next
  case (2 c)
  show ?case by (simp add: parse_unit)
next
  case (3 c d ds)
  show ?case
  proof (cases "is_lead c \<and> is_trail d")
    case True
    then have "c \<noteq> 34" "c \<noteq> 92" "\<not> c < 32" "d \<noteq> 34" "d \<noteq> 92" "\<not> d < 32"
      by (auto simp: is_lead_def is_trail_def)
    moreover have "parse_chars (quote_chars ds @ 34 # r) = Some (ds, r)"
      using "3.IH"(1) True by simp
    ultimately show ?thesis using True by simp
  next
    case False
    then have q: "quote_chars (c # d # ds) = quote_unit c @ quote_chars (d # ds)" by auto
    have "parse_chars (quote_chars (d # ds) @ 34 # r) = Some (d # ds, r)"
      using "3.IH"(2) False by simp
    then show ?thesis unfolding q by (simp add: parse_unit del: quote_chars.simps)
  qed
qed

lemma parse_value_string: "parse_value (quote s @ r) = Some (JString s, r)"
  by (subst parse_value.simps) (simp add: quote_def parse_quote_chars)

lemma parse_value_null: "parse_value (js ''null'' @ r) = Some (JNull, r)"
  by (subst parse_value.simps) (simp add: js_def starts_with_def)

lemma show_nat_digits: "\<forall>c \<in> set (show_nat n). is_digit c"
proof (induction n rule: show_nat.induct)
  case (1 n)
  show ?case
  proof (cases "n < 10")
    case True
    then show ?thesis by (subst show_nat.simps) (simp add: is_digit_def)
  next
    case False
    have "n mod 10 < 10" by simp
    then have "is_digit (48 + n mod 10)" unfolding is_digit_def by linarith
    with False 1 show ?thesis by (subst show_nat.simps) simp
  qed
qed

lemma show_nat_nonempty: "show_nat n \<noteq> []"
  by (subst show_nat.simps) simp

lemma digits_val_snoc: "digits_val (xs @ [d]) = 10 * digits_val xs + (d - 48)"
  by (simp add: digits_val_def)

lemma digits_val_show_nat: "digits_val (show_nat n) = n"
proof (induction n rule: show_nat.induct)
  case (1 n)
  show ?case
  proof (cases "n < 10")
    case True
    then show ?thesis by (subst show_nat.simps) (simp add: digits_val_def)
  next
    case False
    with 1 show ?thesis by (subst show_nat.simps) (simp add: digits_val_snoc)
  qed
qed

lemma hd_show_nat: "0 < n \<Longrightarrow> hd (show_nat n) \<noteq> 48"
proof (induction n rule: show_nat.induct)
  case (1 n)
  show ?case
  proof (cases "n < 10")
    case True
    with 1 show ?thesis by (subst show_nat.simps) simp
  next
    case False
    then have "0 < n div 10" by simp
    with 1 False have "hd (show_nat (n div 10)) \<noteq> 48" by simp
    with False show ?thesis
      by (subst show_nat.simps) (simp add: show_nat_nonempty)
  qed
qed

lemma show_nat_0: "show_nat 0 = [48]"
  by (subst show_nat.simps) simp

lemma span_digits:
  assumes "r = [] \<or> \<not> is_digit (hd r)"
  shows "takeWhile is_digit (show_nat n @ r) = show_nat n"
    and "dropWhile is_digit (show_nat n @ r) = r"
proof -
  have 1: "takeWhile is_digit r = []" "dropWhile is_digit r = r"
    using assms by (cases r; simp)+
  show "takeWhile is_digit (show_nat n @ r) = show_nat n"
    using show_nat_digits[of n] 1 by (simp add: takeWhile_append2)
  show "dropWhile is_digit (show_nat n @ r) = r"
    using show_nat_digits[of n] 1 by (simp add: dropWhile_append2)
qed

lemma parse_int_part_show:
  assumes "r = [] \<or> \<not> is_digit (hd r)"
  shows "parse_int_part (show_nat n @ r) = Some (n, r)"
proof (cases "n = 0")
  case True
  then show ?thesis by (simp add: show_nat_0 parse_int_part_def)
next
  case False
  obtain c cs where s: "show_nat n = c # cs"
    using show_nat_nonempty[of n] by (cases "show_nat n") auto
  have "c \<noteq> 48" using hd_show_nat[of n] False s by simp
  moreover have "is_digit c" using show_nat_digits[of n] s by simp
  moreover have "takeWhile is_digit (c # cs @ r) = c # cs" "dropWhile is_digit (c # cs @ r) = r"
    using span_digits[OF assms, of n] s by simp_all
  ultimately show ?thesis
    using digits_val_show_nat[of n] s by (simp add: parse_int_part_def)
qed

lemma parse_number_nat:
  assumes "number_end r"
  shows "parse_int_part (show_nat n @ r) = Some (n, r)" "parse_frac r = Some (0, r)"
    "parse_exp r = Some (0, r)"
proof -
  from assms have "r = [] \<or> \<not> is_digit (hd r)"
    by (auto simp: number_end_def is_digit_def split: list.splits)
  then show "parse_int_part (show_nat n @ r) = Some (n, r)" by (rule parse_int_part_show)
  from assms show "parse_frac r = Some (0, r)"
    by (auto simp: number_end_def parse_frac_def split: list.splits)
  from assms show "parse_exp r = Some (0, r)"
    by (auto simp: number_end_def parse_exp_def split: list.splits)
qed

lemma parse_number_show_int:
  assumes "number_end r"
  shows "parse_number (show_int i @ r) = Some (JNumber (of_int i), r)"
proof (cases "i < 0")
  case True
  then have "of_int i = - (of_nat (nat (- i)) :: rat)" by simp
  with True show ?thesis
    by (simp add: parse_number_def show_int_def parse_number_nat[OF assms] scale_def)
next
  case False
  obtain c cs where s: "show_nat (nat i) = c # cs"
    using show_nat_nonempty[of "nat i"] by (cases "show_nat (nat i)") auto
  have "is_digit c" using show_nat_digits[of "nat i"] s by simp
  then have "c \<noteq> 45" by (simp add: is_digit_def)
  moreover have "parse_int_part (c # cs @ r) = Some (nat i, r)"
    using parse_number_nat(1)[OF assms, of "nat i"] s by simp
  moreover have "of_int i = (of_nat (nat i) :: rat)" using False by simp
  ultimately show ?thesis
    using False s by (simp add: parse_number_def show_int_def parse_number_nat[OF assms] scale_def)
qed

lemma hd_show_int: "\<exists>c cs. show_int i = c # cs \<and> (c = 45 \<or> is_digit c)"
proof (cases "i < 0")
  case True
  then show ?thesis by (simp add: show_int_def)
next
  case False
  obtain c cs where s: "show_nat (nat i) = c # cs"
    using show_nat_nonempty[of "nat i"] by (cases "show_nat (nat i)") auto
  have "is_digit c" using show_nat_digits[of "nat i"] s by simp
  with False s show ?thesis by (simp add: show_int_def)
qed

lemma parse_value_show_int:
  assumes "number_end r"
  shows "parse_value (show_int i @ r) = Some (JNumber (of_int i), r)"
proof -
  from hd_show_int[of i] obtain c cs where s: "show_int i = c # cs" "c = 45 \<or> is_digit c"
    by blast
  from s(2) have c: "c \<noteq> 123" "c \<noteq> 91" "c \<noteq> 34" "c \<noteq> 116" "c \<noteq> 102" "c \<noteq> 110"
    by (auto simp: is_digit_def)
  have "parse_value (c # cs @ r) = parse_number (c # cs @ r)"
    by (subst parse_value.simps) (simp add: c js_def starts_with_def)
  with parse_number_show_int[OF assms, of i] s show ?thesis by simp
qed

lemma skip_ws_simps:
  "skip_ws (10 # x) = skip_ws x" "skip_ws (32 # x) = skip_ws x"
  "skip_ws (replicate n 32 @ x) = skip_ws x"
  "\<not> is_json_ws c \<Longrightarrow> skip_ws (c # x) = c # x"
  by (induction n) (simp_all add: skip_ws_def is_json_ws_def)

lemma skip_ws_value: "vt \<noteq> [] \<Longrightarrow> \<not> is_json_ws (hd vt) \<Longrightarrow> skip_ws (vt @ r) = vt @ r"
  by (cases vt) (simp_all add: skip_ws_def)

lemma parse_members_step:
  assumes "parse_value (vt @ r) = Some (v, r)" "vt \<noteq> []" "\<not> is_json_ws (hd vt)"
  shows "parse_members (quote k @ [58, 32] @ vt @ r) =
           (case skip_ws r of
              [] \<Rightarrow> None
            | d # ds \<Rightarrow>
                if d = 44 then
                  (case parse_members (skip_ws ds) of
                     None \<Rightarrow> None
                   | Some (kvs, r') \<Rightarrow> Some ((k, v) # kvs, r'))
                else if d = 125 then Some ([(k, v)], ds)
                else None)"
proof -
  have 1: "parse_chars (quote_chars k @ 34 # 58 # 32 # vt @ r) = Some (k, 58 # 32 # vt @ r)"
    by (rule parse_quote_chars)
  have 2: "skip_ws (58 # 32 # vt @ r) = 58 # 32 # vt @ r"
    by (simp add: skip_ws_simps is_json_ws_def)
  have 3: "skip_ws (32 # vt @ r) = vt @ r"
    using assms(2,3) by (simp add: skip_ws_simps skip_ws_value)
  show ?thesis
    by (subst parse_members.simps) (simp add: quote_def 1 2 3 assms(1))
qed

lemma lines_Cons: "ts \<noteq> [] \<Longrightarrow> lines ind (t # ts) = line ind t @ [44, 10] @ lines ind ts"
  by (cases ts) (simp_all add: lines_def)

lemma skip_ws_line: "skip_ws (line ind t @ r) = quote (fst t) @ [58, 32] @ fst (snd t) @ r"
  by (cases t) (simp add: line_def skip_ws_simps quote_def is_json_ws_def)

lemma parse_lines:
  assumes "ts \<noteq> []"
    and "\<forall>(k, vt, v) \<in> set ts. vt \<noteq> [] \<and> \<not> is_json_ws (hd vt)
           \<and> (\<forall>r. r \<noteq> [] \<and> number_end r \<longrightarrow> parse_value (vt @ r) = Some (v, r))"
  shows "parse_members (skip_ws (lines ind ts @ 10 # replicate j 32 @ 125 # rest))
           = Some (map (\<lambda>(k, vt, v). (k, v)) ts, rest)"
  using assms
proof (induction ts rule: list_nonempty_induct)
  case (single t)
  obtain k vt v where t: "t = (k, vt, v)" by (cases t)
  let ?r = "10 # replicate j 32 @ 125 # rest"
  from single t have v: "vt \<noteq> []" "\<not> is_json_ws (hd vt)" "parse_value (vt @ ?r) = Some (v, ?r)"
    by (auto simp: number_end_def)
  have "skip_ws ?r = 125 # rest" by (simp add: skip_ws_simps is_json_ws_def)
  then show ?case
    using parse_members_step[OF v(3) v(1) v(2), of k]
    by (simp add: lines_def skip_ws_line t)
next
  case (cons t ts)
  obtain k vt v where t: "t = (k, vt, v)" by (cases t)
  let ?tail = "lines ind ts @ 10 # replicate j 32 @ 125 # rest"
  let ?r = "44 # 10 # ?tail"
  from cons.prems t have v: "vt \<noteq> []" "\<not> is_json_ws (hd vt)" "parse_value (vt @ ?r) = Some (v, ?r)"
    by (auto simp: number_end_def)
  have ih: "parse_members (skip_ws ?tail) = Some (map (\<lambda>(k, vt, v). (k, v)) ts, rest)"
    using cons.IH cons.prems by simp
  have "skip_ws ?r = ?r" by (simp add: skip_ws_simps is_json_ws_def)
  moreover have "skip_ws (10 # ?tail) = skip_ws ?tail" by (simp add: skip_ws_simps)
  ultimately show ?case
    using parse_members_step[OF v(3) v(1) v(2), of k] ih
    by (simp add: lines_Cons[OF cons.hyps] skip_ws_line t)
qed

lemma obj_put_fresh: "k \<notin> fst ` set acc \<Longrightarrow> obj_put k v acc = acc @ [(k, v)]"
  by (induction acc) auto

lemma foldl_obj_put:
  "distinct (map fst (acc @ kvs)) \<Longrightarrow>
   foldl (\<lambda>acc (k, v). obj_put k v acc) acc kvs = acc @ kvs"
proof (induction kvs arbitrary: acc)
  case Nil
  show ?case by simp
next
  case (Cons kv kvs)
  obtain k v where kv: "kv = (k, v)" by (cases kv)
  from Cons.prems kv have "k \<notin> fst ` set acc" by auto
  then have "obj_put k v acc = acc @ [(k, v)]" by (rule obj_put_fresh)
  moreover have "distinct (map fst ((acc @ [(k, v)]) @ kvs))" using Cons.prems kv by simp
  ultimately show ?case using Cons.IH[of "acc @ [(k, v)]"] kv by simp
qed

lemma mk_object_distinct: "distinct (map fst kvs) \<Longrightarrow> mk_object kvs = JObject kvs"
  using foldl_obj_put[of "[]" kvs] by (simp add: mk_object_def)

lemma parse_object:
  assumes "ts \<noteq> []"
    and "\<forall>(k, vt, v) \<in> set ts. vt \<noteq> [] \<and> \<not> is_json_ws (hd vt)
           \<and> (\<forall>r. r \<noteq> [] \<and> number_end r \<longrightarrow> parse_value (vt @ r) = Some (v, r))"
    and "distinct (map fst ts)"
  shows "parse_value ([123, 10] @ lines ind ts @ 10 # replicate j 32 @ 125 # rest)
           = Some (JObject (map (\<lambda>(k, vt, v). (k, v)) ts), rest)"
proof -
  let ?cs = "10 # lines ind ts @ 10 # replicate j 32 @ 125 # rest"
  obtain t ts' where ts: "ts = t # ts'" using assms(1) by (cases ts) auto
  have "\<exists>x. skip_ws ?cs = 34 # x"
  proof (cases ts')
    case Nil
    then show ?thesis by (simp add: ts lines_def skip_ws_simps skip_ws_line quote_def)
  next
    case (Cons a list)
    then have "lines ind ts = line ind t @ [44, 10] @ lines ind ts'"
      unfolding ts by (intro lines_Cons) simp
    then show ?thesis by (simp add: skip_ws_simps skip_ws_line quote_def)
  qed
  then obtain x where x: "skip_ws ?cs = 34 # x" by blast
  have m: "parse_members (skip_ws ?cs) = Some (map (\<lambda>(k, vt, v). (k, v)) ts, rest)"
    using parse_lines[OF assms(1,2), of ind j rest] by (simp add: skip_ws_simps)
  have d: "distinct (map fst (map (\<lambda>(k, vt, v). (k, v)) ts))"
    using assms(3) by (simp add: comp_def case_prod_beta)
  show ?thesis
    apply (subst parse_value.simps)
    using m x by (simp add: mk_object_distinct[OF d])
qed

lemma stringify_stats_lines:
  "stringify_stats s = [123, 10] @ lines 4 (stats_triples s) @ 10 # replicate 2 32 @ [125]"
  by (simp add: stringify_stats_def lines_def line_def stats_triples_def member_def
      numeral_eq_Suc)

lemma show_int_value:
  "show_int i \<noteq> []" "\<not> is_json_ws (hd (show_int i))"
  using hd_show_int[of i] by (auto simp: is_json_ws_def is_digit_def)

lemma parse_value_stats:
  assumes "r \<noteq> []" "number_end r"
  shows "parse_value (stringify_stats s @ r) = Some (stats_json s, r)"
proof -
  have ok: "\<forall>(k, vt, v) \<in> set (stats_triples s). vt \<noteq> [] \<and> \<not> is_json_ws (hd vt)
           \<and> (\<forall>r. r \<noteq> [] \<and> number_end r \<longrightarrow> parse_value (vt @ r) = Some (v, r))"
    by (simp add: stats_triples_def show_int_value parse_value_show_int)
  have d: "distinct (map fst (stats_triples s))"
    by (simp add: stats_triples_def js_def)
  have ne: "stats_triples s \<noteq> []" by (simp add: stats_triples_def)
  from parse_object[where ts = "stats_triples s" and ind = 4 and j = 2 and rest = r,
      OF ne ok d] show ?thesis
    by (simp add: stringify_stats_lines stats_json_def stats_triples_def)
qed

lemma stringify_config_lines:
  "stringify_config c = [123, 10] @ lines 2 (config_triples c) @ 10 # replicate 0 32 @ [125]"
  by (cases "ai_api_key c"; cases "api_key c")
     (simp_all add: stringify_config_def lines_def line_def config_triples_def member_def
        key_member_def key_triples_def numeral_eq_Suc)

lemma config_json_triples:
  "config_json c = JObject (map (\<lambda>(k, vt, v). (k, v)) (config_triples c))"
  by (cases "ai_api_key c"; cases "api_key c")
     (simp_all add: config_json_def config_triples_def key_json_def key_triples_def)

lemma config_triples_distinct: "distinct (map fst (config_triples c))"
  by (cases "ai_api_key c"; cases "api_key c")
     (simp_all add: config_triples_def key_triples_def js_def)

lemma quote_value: "quote s \<noteq> []" "\<not> is_json_ws (hd (quote s))"
  by (simp_all add: quote_def is_json_ws_def)

lemma null_value: "js ''null'' \<noteq> []" "\<not> is_json_ws (hd (js ''null''))"
  by (simp_all add: js_def is_json_ws_def)

lemma stats_value: "stringify_stats s \<noteq> []" "\<not> is_json_ws (hd (stringify_stats s))"
  by (simp_all add: stringify_stats_def is_json_ws_def)

lemma config_triples_ok:
  "\<forall>(k, vt, v) \<in> set (config_triples c). vt \<noteq> [] \<and> \<not> is_json_ws (hd vt)
     \<and> (\<forall>r. r \<noteq> [] \<and> number_end r \<longrightarrow> parse_value (vt @ r) = Some (v, r))"
  by (cases "ai_api_key c"; cases "api_key c")
     (simp_all add: config_triples_def key_triples_def quote_value null_value stats_value
        parse_value_string parse_value_null parse_value_stats)

lemma parse_stringify_config: "JSON_parse (stringify_config c) = Some (config_json c)"
proof -
  have ne: "config_triples c \<noteq> []" by (simp add: config_triples_def)
  from parse_object[where ts = "config_triples c" and ind = 2 and j = 0 and rest = "[]",
      OF ne config_triples_ok config_triples_distinct]
  have "parse_value (stringify_config c) = Some (config_json c, [])"
    by (simp add: stringify_config_lines config_json_triples)
  moreover have "skip_ws (stringify_config c) = stringify_config c"
    by (simp add: stringify_config_def skip_ws_simps is_json_ws_def)
  ultimately show ?thesis by (simp add: JSON_parse_def skip_ws_def)
qed

lemma key_json_inject: "key_json k f = key_json k f' \<Longrightarrow> f = f'"
  by (cases f; cases f') (simp_all add: key_json_def)

lemma config_json_inject:
  assumes "config_json c = config_json c'"
  shows "c = c'"
proof -
  have k: "key_json k f @ x # xs = key_json k f' @ y # ys \<Longrightarrow> fst x \<noteq> js k \<Longrightarrow> fst y \<noteq> js k
           \<Longrightarrow> f = f' \<and> x = y \<and> xs = ys" for k f f' and x y :: "jsstring \<times> json" and xs ys
    by (cases f; cases f') (auto simp: key_json_def)
  from assms have 1: "name c = name c'" "owner c = owner c'" "solana_wallet c = solana_wallet c'"
    "role c = role c'" "model c = model c'" "model_info c = model_info c'"
    and r1: "key_json ''ai_api_key'' (ai_api_key c) @ (js ''agent_id'', JString (agent_id c))
              # (key_json ''api_key'' (api_key c)
                 @ [(js ''server'', JString (server c)),
                    (js ''created_at'', JString (created_at c)),
                    (js ''stats'', stats_json (stats c))])
           = key_json ''ai_api_key'' (ai_api_key c') @ (js ''agent_id'', JString (agent_id c'))
              # (key_json ''api_key'' (api_key c')
                 @ [(js ''server'', JString (server c')),
                    (js ''created_at'', JString (created_at c')),
                    (js ''stats'', stats_json (stats c'))])"
    by (simp_all add: config_json_def)
  from k[OF r1] have 2: "ai_api_key c = ai_api_key c'" "agent_id c = agent_id c'"
    and r2: "key_json ''api_key'' (api_key c)
                 @ (js ''server'', JString (server c))
                   # [(js ''created_at'', JString (created_at c)),
                      (js ''stats'', stats_json (stats c))]
           = key_json ''api_key'' (api_key c')
                 @ (js ''server'', JString (server c'))
                   # [(js ''created_at'', JString (created_at c')),
                      (js ''stats'', stats_json (stats c'))]"
    by (simp_all add: js_def)
  from k[OF r2] have 3: "api_key c = api_key c'" "server c = server c'"
    "created_at c = created_at c'" "stats_json (stats c) = stats_json (stats c')"
    by (simp_all add: js_def)
  from 3(4) have 4: "stats c = stats c'" by (simp add: stats_json_def)
  from 1 2 3 4 show ?thesis by simp
qed

lemma well_formed_plain_append: "plain a \<Longrightarrow> well_formed b \<Longrightarrow> well_formed (a @ b)"
proof (induction a)
  case Nil
  then show ?case by simp
next
  case (Cons c a)
  then have "well_formed (a @ b)" by (simp add: plain_def)
  with Cons.prems(1) show ?case by (cases "a @ b") (auto simp: plain_def)
qed

lemma well_formed_append_plain: "well_formed a \<Longrightarrow> plain b \<Longrightarrow> well_formed (a @ b)"
proof (induction a rule: well_formed.induct)
  case 1
  then show ?case using well_formed_plain_append[of b "[]"] by simp
next
  case (2 c)
  then have "plain (c # b)" by (simp add: plain_def)
  from well_formed_plain_append[OF this, of "[]"] show ?case by simp
next
  case (3 c d ds)
  then show ?case by (auto split: if_splits)
qed

lemma hex_digit_ascii: "d < 16 \<Longrightarrow> hex_digit d < 128"
  by (simp add: hex_digit_def)

lemma plain_unicode_escape:
  assumes "c < 65536"
  shows "plain (unicode_escape c)"
proof -
  have "c div 4096 < 16" using assms by (simp add: div_less_iff_less_mult)
  then have "\<forall>x \<in> set (unicode_escape c). x < 128"
    by (simp add: unicode_escape_def hex_digit_ascii)
  then show ?thesis by (auto simp: plain_def is_lead_def is_trail_def)
qed

lemma plain_quote_unit: "plain (quote_unit c)"
proof (cases "c < 32 \<or> is_lead c \<or> is_trail c")
  case True
  then have "c < 65536" by (auto simp: is_lead_def is_trail_def)
  from plain_unicode_escape[OF this] show ?thesis
    by (auto simp: quote_unit_def plain_def is_lead_def is_trail_def)
next
  case False
  then show ?thesis by (auto simp: quote_unit_def plain_def is_lead_def is_trail_def)
qed

lemma well_formed_quote_chars: "well_formed (quote_chars s)"
proof (induction s rule: quote_chars.induct)
  case 1
  show ?case by simp
next
  case (2 c)
  from well_formed_plain_append[OF plain_quote_unit, of "[]" c] show ?case by simp
next
  case (3 c d ds)
  show ?case
  proof (cases "is_lead c \<and> is_trail d")
    case True
    with 3 show ?thesis by simp
  next
    case False
    then have "quote_chars (c # d # ds) = quote_unit c @ quote_chars (d # ds)" by auto
    moreover have "well_formed (quote_chars (d # ds))" using "3.IH"(2) False by simp
    ultimately show ?thesis using well_formed_plain_append[OF plain_quote_unit] by simp
  qed
qed

lemma well_formed_quote: "well_formed (quote s)"
proof -
  have "plain [34]" by (simp add: plain_def is_lead_def is_trail_def)
  from well_formed_append_plain[OF well_formed_quote_chars this, of s]
  have "well_formed (quote_chars s @ [34])" .
  from well_formed_plain_append[OF \<open>plain [34]\<close> this] show ?thesis by (simp add: quote_def)
qed

lemma well_formed_append: "well_formed a \<Longrightarrow> well_formed b \<Longrightarrow> well_formed (a @ b)"
proof (induction a rule: well_formed.induct)
  case 1
  then show ?case by simp
next
  case (2 c)
  then have "plain [c]" by (simp add: plain_def)
  from well_formed_plain_append[OF this "2.prems"(2)] show ?case .
next
  case (3 c d ds)
  show ?case
  proof (cases "is_lead c \<and> is_trail d")
    case True
    with 3 show ?thesis by simp
  next
    case False
    with "3.prems" have c: "\<not> is_lead c" "\<not> is_trail c" and w: "well_formed (d # ds)"
      by (auto split: if_splits)
    from "3.IH"(2)[OF False w "3.prems"(2)] have "well_formed (d # ds @ b)" by simp
    with c show ?thesis by simp
  qed
qed

lemma plain_well_formed: "plain a \<Longrightarrow> well_formed a"
  using well_formed_plain_append[of a "[]"] by simp

lemma plain_ascii: "\<forall>c \<in> set a. c < 128 \<Longrightarrow> plain a"
  by (auto simp: plain_def is_lead_def is_trail_def)

lemma show_nat_plain: "plain (show_nat n)"
  using show_nat_digits[of n] by (auto simp: plain_def is_digit_def is_lead_def is_trail_def)

lemma show_int_well_formed: "well_formed (show_int i)"
proof -
  have "plain (show_int i)"
    using show_nat_plain by (auto simp: show_int_def plain_def is_lead_def is_trail_def)
  then show ?thesis by (rule plain_well_formed)
qed

lemma well_formed_member: "well_formed v \<Longrightarrow> well_formed (member ind k v)"
proof -
  assume v: "well_formed v"
  have "plain (replicate ind 32)" "plain [58, 32]"
    by (simp_all add: plain_def is_lead_def is_trail_def)
  then show ?thesis
    unfolding member_def
    by (intro well_formed_append well_formed_quote v plain_well_formed)
qed

lemma well_formed_join:
  "\<forall>x \<in> set xs. well_formed x \<Longrightarrow> well_formed sep \<Longrightarrow> well_formed (join sep xs)"
  by (induction sep xs rule: join.induct) (auto intro: well_formed_append)

lemma well_formed_stats: "well_formed (stringify_stats s)"
proof -
  have "plain [123, 10]" "plain [10, 32, 32, 125]" "plain [44, 10]"
    by (simp_all add: plain_def is_lead_def is_trail_def)
  then show ?thesis
    unfolding stringify_stats_def
    by (intro well_formed_append well_formed_join plain_well_formed)
       (simp_all add: well_formed_member show_int_well_formed)
qed

lemma well_formed_config: "well_formed (stringify_config c)"
proof -
  have p: "plain [123, 10]" "plain [10, 125]" "plain [44, 10]" "plain (js ''null'')"
    by (simp_all add: plain_def is_lead_def is_trail_def js_def)
  have k: "\<forall>x \<in> set (key_member k f). well_formed x" for k f
    by (cases f) (simp_all add: key_member_def well_formed_member well_formed_quote
        plain_well_formed[OF p(4)])
  show ?thesis
    unfolding stringify_config_def
    by (intro well_formed_append well_formed_join plain_well_formed p)
       (auto simp: well_formed_member well_formed_quote well_formed_stats k)
qed

lemma load_after_save: "loadConfig (Some (stringify_config c)) = config_json c"
  by (simp add: loadConfig_def parse_stringify_config)

text \<open>
  C9. For every worker identity, \<open>saveConfig\<close> (when the write succeeds) leaves the file with
  the pretty-printed identity, and \<open>loadConfig\<close> then returns the identity as it was in
  memory: the same object, member for member, with the nested statistics. The text written
  holds no unpaired surrogate, so the UTF-8 file keeps it as it is. Two identities with the same
  object are the same in every field.
\<close>

theorem save_then_load:
  "saveConfig c WriteOk d = (None, Some (stringify_config c))
   \<and> well_formed (stringify_config c)
   \<and> loadConfig (snd (saveConfig c WriteOk d)) = config_json c
   \<and> (config_json c = config_json c' \<longrightarrow> c = c')"
  by (auto simp: saveConfig_def load_after_save well_formed_config dest: config_json_inject)

lemma replicate_2_4: "replicate 2 x = [x, x]" "replicate 4 x = [x, x, x, x]"
  by (simp_all add: numeral_eq_Suc)

lemmas stringify_eval = replicate_2_4 stringify_config_def stringify_stats_def member_def key_member_def
  quote_def quote_unit_def is_lead_def is_trail_def show_int_def show_nat.simps js_def
  sample_config_def

theorem save_then_load_witness:
  "stringify_config sample_config =
     js ''{\<newline>  \"name\": \"TrendBot\",\<newline>  \"owner\": \"anonymous\",\<newline>  \"solana_wallet\": \"\",\<newline>  \"role\": \"trend_researcher\",\<newline>  \"model\": \"gemini\",\<newline>  \"model_info\": \"Google Gemini (free)\",\<newline>  \"ai_api_key\": \"k1\",\<newline>  \"agent_id\": \"agent-1\",\<newline>  \"api_key\": \"s1\",\<newline>  \"server\": \"http://57.129.44.62:8000\",\<newline>  \"created_at\": \"2025-01-01T00:00:00.000Z\",\<newline>  \"stats\": {\<newline>    \"completed\": 0,\<newline>    \"points\": 0,\<newline>    \"errors\": 0\<newline>  }\<newline>}''
   \<and> loadConfig (snd (saveConfig sample_config WriteOk None)) = config_json sample_config
   \<and> config_json sample_config = config_json (sample_config\<lparr>name := js ''TrendBot''\<rparr>)
   \<and> sample_config = sample_config\<lparr>name := js ''TrendBot''\<rparr>"
proof -
  have 1: "config_json sample_config = config_json (sample_config\<lparr>name := js ''TrendBot''\<rparr>)"
    by (simp add: sample_config_def)
  have 2: "stringify_config sample_config =
     js ''{\<newline>  \"name\": \"TrendBot\",\<newline>  \"owner\": \"anonymous\",\<newline>  \"solana_wallet\": \"\",\<newline>  \"role\": \"trend_researcher\",\<newline>  \"model\": \"gemini\",\<newline>  \"model_info\": \"Google Gemini (free)\",\<newline>  \"ai_api_key\": \"k1\",\<newline>  \"agent_id\": \"agent-1\",\<newline>  \"api_key\": \"s1\",\<newline>  \"server\": \"http://57.129.44.62:8000\",\<newline>  \"created_at\": \"2025-01-01T00:00:00.000Z\",\<newline>  \"stats\": {\<newline>    \"completed\": 0,\<newline>    \"points\": 0,\<newline>    \"errors\": 0\<newline>  }\<newline>}''"
    by (simp add: stringify_eval)
  from save_then_load[of sample_config None "sample_config\<lparr>name := js ''TrendBot''\<rparr>"] 1 2
  show ?thesis by blast
qed


section \<open>A pass without work\<close>

lemmas worker_eval = cycle_def try_block_def catch_block_def emit_def fetchWork_def apiRequest_def
  resp_ok_def work_task_id_def task_prompt_def first_truthy_def has_slice_def slice_line_def
  received_line_def cannot_convert_def js_add_def exact_sum_def processWithAI_def
  ROLE_PROMPTS_def AI_BACKENDS_def api_key_for_def submitResult_def saveConfig_def
  gemini_text_def claude_text_def chat_text_def or_empty_def
  MAX_CONSECUTIVE_ERRORS_def ERROR_BACKOFF_MS_def POLL_INTERVAL_MS_def starts_with_def js_def
  show_nat.simps

lemmas sample_eval = sample_config_def sample_role_def sample_state_def work_body_def
  gemini_body_def env_no_work_def env_raw_text_def env_submitted_def env_submit_refused_def
  env_fetch_fails_def


lemma no_work_pass:
  assumes "fetchWork (cfg st) (fetch_reply env) = Inr work" "work_task_id work = None"
  shows "cycle ri env st =
           Some (st\<lparr>consecutiveErrors := 0,
                    trace := trace st @ [HttpGetWork (agent_id (cfg st)),
                                         Log (Waiting (stats (cfg st))),
                                         Sleep POLL_INTERVAL_MS]\<rparr>)"
  using assms by (simp add: cycle_def try_block_def emit_def Let_def)

text \<open>
  C4, as stated, fails in one point: a pass without work does not leave the consecutive-error
  counter as it was, it sets it to zero. After three failures the counter is 3; a poll
  answered with status 204 brings it to 0.
\<close>

theorem no_work_pass_counterexample:
  "fetchWork (cfg (sample_state 3)) (fetch_reply env_no_work) = Inr JNull
   \<and> work_task_id JNull = None
   \<and> consecutiveErrors (sample_state 3) = 3
   \<and> map_option consecutiveErrors (cycle sample_role env_no_work (sample_state 3)) = Some 0"
  by (simp add: worker_eval sample_eval)

text \<open>
  C4, amended. For every pass in which \<open>fetchWork\<close> returns no work item: the pass issues the
  poll, one status line and the closing sleep and nothing else (no backend call, no submission),
  the configuration with its statistics (completed, points, errors) and the configuration file
  are unchanged, and the consecutive-error counter is reset to zero.
\<close>

theorem no_work_pass_frame:
  "fetchWork (cfg st) (fetch_reply env) = Inr work \<and> work_task_id work = None \<longrightarrow>
     (case cycle ri env st of
        None \<Rightarrow> False
      | Some st' \<Rightarrow>
          trace st' = trace st @ [HttpGetWork (agent_id (cfg st)), Log (Waiting (stats (cfg st))),
                                  Sleep POLL_INTERVAL_MS]
          \<and> consecutiveErrors st' = 0
          \<and> stats (cfg st') = stats (cfg st)
          \<and> cfg st' = cfg st
          \<and> disk st' = disk st)"
  by (auto simp: no_work_pass)

theorem no_work_pass_frame_witness:
  "fetchWork (cfg (sample_state 3)) (fetch_reply env_no_work) = Inr JNull
   \<and> work_task_id JNull = None
   \<and> (case cycle sample_role env_no_work (sample_state 3) of
        None \<Rightarrow> False
      | Some st' \<Rightarrow>
          trace st' = [HttpGetWork (js ''agent-1''),
                       Log (Waiting \<lparr>completed = 0, points = 0, errors = 0\<rparr>), Sleep 5000]
          \<and> consecutiveErrors st' = 0
          \<and> cfg st' = sample_config)"
proof -
  have 1: "fetchWork (cfg (sample_state 3)) (fetch_reply env_no_work) = Inr JNull"
    by (simp add: worker_eval sample_eval)
  have 2: "work_task_id JNull = None" by (simp add: work_task_id_def)
  from no_work_pass_frame[of "sample_state 3" env_no_work JNull sample_role] 1 2
  show ?thesis
    by (auto simp: sample_state_def sample_config_def POLL_INTERVAL_MS_def js_def
        split: option.splits)
qed
section \<open>Failing passes and the backoff\<close>

lemma backoffs_append: "backoffs (xs @ ys) = backoffs xs + backoffs ys"
  by (simp add: backoffs_def)

lemma worker_errors_append: "worker_errors (xs @ ys) = worker_errors xs @ worker_errors ys"
  by (simp add: worker_errors_def)

lemma catch_block_result:
  assumes "catch_block m st = Some st'"
  shows "errors (stats (cfg st')) = errors (stats (cfg st)) + 1"
    and "completed (stats (cfg st')) = completed (stats (cfg st))"
    and "points (stats (cfg st')) = points (stats (cfg st))"
    and "disk st' = disk st"
    and "consecutiveErrors st + 1 < 10 \<Longrightarrow>
           consecutiveErrors st' = consecutiveErrors st + 1
           \<and> trace st' = trace st @ [Log (ErrWorker (consecutiveErrors st + 1) m)]"
    and "10 \<le> consecutiveErrors st + 1 \<Longrightarrow>
           consecutiveErrors st' = 0
           \<and> trace st' = trace st @ [Log (ErrWorker (consecutiveErrors st + 1) m),
                                     Log ErrBackoff, Sleep ERROR_BACKOFF_MS]"
  using assms
  by (auto simp: catch_block_def js_add_def emit_def Let_def MAX_CONSECUTIVE_ERRORS_def
      split: if_splits)

lemma failed_pass_cases:
  assumes "cycle ri env st = Some st'" "try_block ri env st = Some (Some m, st1)"
  shows "\<exists>s. catch_block m st1 = Some s \<and> st' = emit [Sleep POLL_INTERVAL_MS] s"
  using assms by (auto simp: cycle_def)

lemma fetch_failed_try:
  "fetch_failed env st \<Longrightarrow>
   \<exists>m. try_block ri env st = Some (Some m, emit [HttpGetWork (agent_id (cfg st))] st)"
  by (auto simp: fetch_failed_def try_block_def Let_def split: sum.splits)

lemma fetch_failed_pass:
  assumes "fetch_failed env st" "cycle ri env st = Some st'"
  shows "errors (stats (cfg st')) = errors (stats (cfg st)) + 1
           \<and> (consecutiveErrors st + 1 < 10 \<longrightarrow>
                consecutiveErrors st' = consecutiveErrors st + 1
                \<and> backoffs (trace st') = backoffs (trace st))
           \<and> (10 \<le> consecutiveErrors st + 1 \<longrightarrow>
                consecutiveErrors st' = 0
                \<and> backoffs (trace st') = backoffs (trace st) + 1)"
proof -
  from fetch_failed_try[OF assms(1)] obtain m where
    t: "try_block ri env st = Some (Some m, emit [HttpGetWork (agent_id (cfg st))] st)" by blast
  from failed_pass_cases[OF assms(2) t] obtain s where
    s: "catch_block m (emit [HttpGetWork (agent_id (cfg st))] st) = Some s"
    and st': "st' = emit [Sleep POLL_INTERVAL_MS] s" by blast
  from catch_block_result[OF s] show ?thesis
    by (auto simp: st' emit_def backoffs_def ERROR_BACKOFF_MS_def POLL_INTERVAL_MS_def)
qed

lemma fetch_failures_backoff:
  "all_fetch_failed ri envs st \<Longrightarrow> envs \<noteq> [] \<Longrightarrow> consecutiveErrors st + length envs = 10 \<Longrightarrow>
   \<exists>st'. cycles ri envs st = Some st' \<and> consecutiveErrors st' = 0
       \<and> backoffs (trace st') = backoffs (trace st) + 1
       \<and> errors (stats (cfg st')) = errors (stats (cfg st)) + int (length envs)"
proof (induction envs arbitrary: st)
  case Nil
  then show ?case by simp
next
  case (Cons env envs)
  from Cons.prems(1) have ff: "fetch_failed env st" by simp
  from Cons.prems(1) obtain s1 where c: "cycle ri env st = Some s1"
    and af: "all_fetch_failed ri envs s1"
    by (auto split: option.splits)
  from fetch_failed_pass[OF ff c] have s1:
    "errors (stats (cfg s1)) = errors (stats (cfg st)) + 1"
    "consecutiveErrors st + 1 < 10 \<longrightarrow>
       consecutiveErrors s1 = consecutiveErrors st + 1 \<and> backoffs (trace s1) = backoffs (trace st)"
    "10 \<le> consecutiveErrors st + 1 \<longrightarrow>
       consecutiveErrors s1 = 0 \<and> backoffs (trace s1) = backoffs (trace st) + 1"
    by simp_all
  show ?case
  proof (cases envs)
    case Nil
    with Cons.prems(3) have "10 \<le> consecutiveErrors st + 1" by simp
    with s1 c Nil show ?thesis by simp
  next
    case (Cons e es)
    with Cons.prems(3) have lt: "consecutiveErrors st + 1 < 10" by simp
    with s1 have c1: "consecutiveErrors s1 = consecutiveErrors st + 1"
      and b1: "backoffs (trace s1) = backoffs (trace st)" by simp_all
    have ne: "envs \<noteq> []" using Cons by simp
    have len: "consecutiveErrors s1 + length envs = 10" using c1 Cons.prems(3) by simp
    from Cons.IH[OF af ne len] obtain s2 where "cycles ri envs s1 = Some s2"
      "consecutiveErrors s2 = 0" "backoffs (trace s2) = backoffs (trace s1) + 1"
      "errors (stats (cfg s2)) = errors (stats (cfg s1)) + int (length envs)" by blast
    with c s1(1) b1 show ?thesis by simp
  qed
qed

lemma processWithAI_quiet:
  "backoffs (snd (processWithAI c p penv reply)) = 0
   \<and> worker_errors (snd (processWithAI c p penv reply)) = []"
  by (auto simp: processWithAI_def Let_def backoffs_def worker_errors_def ERROR_BACKOFF_MS_def
      split: option.splits http_reply.splits json.splits)

lemma try_block_frame:
  assumes "try_block ri env st = Some (thrown, st1)"
  shows "errors (stats (cfg st1)) = errors (stats (cfg st))"
    and "thrown \<noteq> None \<Longrightarrow> \<not> fetch_failed env st \<Longrightarrow> consecutiveErrors st1 = 0"
  using assms
  by (auto simp: try_block_def Let_def emit_def fetch_failed_def saveConfig_def
      split: sum.splits option.splits prod.splits ai_result.splits if_splits write_result.splits)

lemma try_block_quiet:
  assumes "try_block ri env st = Some (thrown, st1)"
  shows "\<exists>new. trace st1 = trace st @ new \<and> backoffs new = 0 \<and> worker_errors new = []"
proof -
  obtain r es where p:
    "processWithAI (cfg st) (task_prompt (projr (fetchWork (cfg st) (fetch_reply env))))
       (environ env) (ai_reply env) = (r, es)"
    by (cases "processWithAI (cfg st) (task_prompt (projr (fetchWork (cfg st) (fetch_reply env))))
       (environ env) (ai_reply env)")
  have q: "backoffs es = 0" "worker_errors es = []"
    using processWithAI_quiet[of "cfg st" "task_prompt (projr (fetchWork (cfg st) (fetch_reply env)))"
        "environ env" "ai_reply env"] p by simp_all
  from assms p q show ?thesis
    by (auto simp: try_block_def Let_def emit_def submitResult_def saveConfig_def
        backoffs_def worker_errors_def
        split: sum.splits option.splits ai_result.splits if_splits write_result.splits)
qed

lemma pass_errors:
  assumes "cycle ri env st = Some st'"
  shows "errors (stats (cfg st')) =
           errors (stats (cfg st)) + (if pass_failed ri env st then 1 else 0)"
proof (cases "try_block ri env st")
  case None
  with assms show ?thesis by (simp add: cycle_def)
next
  case (Some p)
  obtain thrown st1 where p: "p = (thrown, st1)" by (cases p)
  note t = Some[unfolded p]
  show ?thesis
  proof (cases thrown)
    case None
    with assms t try_block_frame(1)[OF t] show ?thesis
      by (auto simp: cycle_def pass_failed_def emit_def)
  next
    case (Some m)
    from failed_pass_cases[OF assms t[unfolded Some]] obtain s where
      s: "catch_block m st1 = Some s" and st': "st' = emit [Sleep POLL_INTERVAL_MS] s" by blast
    from catch_block_result(1)[OF s] try_block_frame(1)[OF t] t Some show ?thesis
      by (simp add: st' emit_def pass_failed_def)
  qed
qed

lemma late_failure_pass:
  assumes "cycle ri env st = Some st'" "pass_failed ri env st" "\<not> fetch_failed env st"
  shows "consecutiveErrors st' = 1"
    and "backoffs (trace st') = backoffs (trace st)"
    and "\<exists>new. trace st' = trace st @ new \<and> worker_errors new = [1]"
proof -
  from assms(2) obtain m st1 where t: "try_block ri env st = Some (Some m, st1)"
    by (auto simp: pass_failed_def split: option.splits prod.splits)
  from try_block_frame(2)[OF t] assms(3) have z: "consecutiveErrors st1 = 0" by simp
  from try_block_quiet[OF t] obtain new where n: "trace st1 = trace st @ new"
    "backoffs new = 0" "worker_errors new = []" by blast
  from failed_pass_cases[OF assms(1) t] obtain s where
    s: "catch_block m st1 = Some s" and st': "st' = emit [Sleep POLL_INTERVAL_MS] s" by blast
  from catch_block_result(5)[OF s] z have c: "consecutiveErrors s = 1"
    "trace s = trace st1 @ [Log (ErrWorker 1 m)]" by simp_all
  show "consecutiveErrors st' = 1" by (simp add: st' emit_def c)
  have tr: "trace st' = trace st @ (new @ [Log (ErrWorker 1 m), Sleep POLL_INTERVAL_MS])"
    by (simp add: st' emit_def c n)
  show "backoffs (trace st') = backoffs (trace st)"
    unfolding tr backoffs_append using n(2)
    by (simp add: backoffs_def ERROR_BACKOFF_MS_def POLL_INTERVAL_MS_def)
  have "worker_errors (new @ [Log (ErrWorker 1 m), Sleep POLL_INTERVAL_MS]) = [1]"
    unfolding worker_errors_append n(3) by (simp add: worker_errors_def)
  with tr show "\<exists>new. trace st' = trace st @ new \<and> worker_errors new = [1]" by blast
qed

lemma late_failures_run:
  "all_failed_after_work ri envs st \<Longrightarrow> envs \<noteq> [] \<Longrightarrow>
   \<exists>st' new. cycles ri envs st = Some st' \<and> consecutiveErrors st' = 1
       \<and> backoffs (trace st') = backoffs (trace st)
       \<and> trace st' = trace st @ new \<and> worker_errors new = replicate (length envs) 1
       \<and> errors (stats (cfg st')) = errors (stats (cfg st)) + int (length envs)"
proof (induction envs arbitrary: st)
  case Nil
  then show ?case by simp
next
  case (Cons env envs)
  from Cons.prems(1) obtain s1 where c: "cycle ri env st = Some s1"
    and pf: "pass_failed ri env st" and nf: "\<not> fetch_failed env st"
    and af: "all_failed_after_work ri envs s1"
    by (auto split: option.splits)
  from late_failure_pass[OF c pf nf] obtain new where l:
    "consecutiveErrors s1 = 1" "backoffs (trace s1) = backoffs (trace st)"
    "trace s1 = trace st @ new" "worker_errors new = [1]" by blast
  from pass_errors[OF c] pf have e: "errors (stats (cfg s1)) = errors (stats (cfg st)) + 1"
    by simp
  show ?case
  proof (cases envs)
    case Nil
    with c l e show ?thesis by simp
  next
    case (Cons e1 es)
    then have "envs \<noteq> []" by simp
    from Cons.IH[OF af this] obtain s2 new2 where r: "cycles ri envs s1 = Some s2"
      "consecutiveErrors s2 = 1" "backoffs (trace s2) = backoffs (trace s1)"
      "trace s2 = trace s1 @ new2" "worker_errors new2 = replicate (length envs) 1"
      "errors (stats (cfg s2)) = errors (stats (cfg s1)) + int (length envs)" by blast
    have "trace s2 = trace st @ (new @ new2)" by (simp add: r(4) l(3))
    moreover have "worker_errors (new @ new2) = replicate (length (env # envs)) 1"
      by (simp add: worker_errors_append l(4) r(5))
    ultimately show ?thesis using c r l e by auto
  qed
qed

lemma submit_refused_step:
  "cycle sample_role env_submit_refused
     \<lparr>cfg = sample_config\<lparr>stats := \<lparr>completed = 0, points = 0, errors = e\<rparr>\<rparr>,
      consecutiveErrors = n, disk = d, trace = t\<rparr>
   = (if \<bar>e\<bar> \<le> 2 ^ 53 \<and> \<bar>e + 1\<bar> \<le> 2 ^ 53 then
        Some \<lparr>cfg = sample_config\<lparr>stats := \<lparr>completed = 0, points = 0, errors = e + 1\<rparr>\<rparr>,
           consecutiveErrors = 1, disk = d,
           trace = t @ [HttpGetWork (js ''agent-1''), Log (WorkReceived (JString (js ''t1''))),
                        Log (InfoSending (js ''Google Gemini (free)'')),
                        HttpPostBackend (js ''gemini''), Log OkParsed,
                        HttpPostSubmit (JString (js ''t1'')) (JArray [JNumber 1]),
                        Log (ErrSubmit (JString (js ''t1''))
                               (js ''API POST /api/agents/submit failed (500): down'')),
                        Log (ErrWorker 1 (js ''API POST /api/agents/submit failed (500): down'')),
                        Sleep 5000]\<rparr>
      else None)"
  by (simp add: worker_eval sample_eval json_eval extract_eval)

lemma submit_refused_failed:
  "pass_failed sample_role env_submit_refused
     \<lparr>cfg = sample_config\<lparr>stats := \<lparr>completed = 0, points = 0, errors = e\<rparr>\<rparr>,
      consecutiveErrors = n, disk = d, trace = t\<rparr>
   \<and> \<not> fetch_failed env_submit_refused
     \<lparr>cfg = sample_config\<lparr>stats := \<lparr>completed = 0, points = 0, errors = e\<rparr>\<rparr>,
      consecutiveErrors = n, disk = d, trace = t\<rparr>"
  by (simp add: pass_failed_def fetch_failed_def worker_eval sample_eval json_eval extract_eval)

lemma refused_run:
  "0 \<le> e \<Longrightarrow> e + int k \<le> 100 \<Longrightarrow>
   all_failed_after_work sample_role (replicate k env_submit_refused)
     \<lparr>cfg = sample_config\<lparr>stats := \<lparr>completed = 0, points = 0, errors = e\<rparr>\<rparr>,
      consecutiveErrors = n, disk = d, trace = t\<rparr>"
proof (induction k arbitrary: e n t)
  case 0
  then show ?case by simp
next
  case (Suc k)
  from Suc.prems have r: "\<bar>e\<bar> \<le> 2 ^ 53 \<and> \<bar>e + 1\<bar> \<le> 2 ^ 53" by simp
  from Suc.prems have "0 \<le> e + 1" "e + 1 + int k \<le> 100" by simp_all
  from Suc.IH[OF this] r show ?case
    by (simp add: submit_refused_step submit_refused_failed)
qed

lemma fetch_fails_step:
  "cycle sample_role env_fetch_fails
     \<lparr>cfg = sample_config\<lparr>stats := \<lparr>completed = 0, points = 0, errors = e\<rparr>\<rparr>,
      consecutiveErrors = n, disk = d, trace = t\<rparr>
   = (if \<bar>e\<bar> \<le> 2 ^ 53 \<and> \<bar>e + 1\<bar> \<le> 2 ^ 53 then
        Some \<lparr>cfg = sample_config\<lparr>stats := \<lparr>completed = 0, points = 0, errors = e + 1\<rparr>\<rparr>,
           consecutiveErrors = (if 10 \<le> n + 1 then 0 else n + 1), disk = d,
           trace = t @ [HttpGetWork (js ''agent-1'')]
                   @ [Log (ErrWorker (n + 1)
                        (js ''API GET /api/agents/agent-1/work failed (500): down''))]
                   @ (if 10 \<le> n + 1 then [Log ErrBackoff, Sleep 15000] else [])
                   @ [Sleep 5000]\<rparr>
      else None)"
  by (simp add: worker_eval sample_eval)

lemma fetch_fails_failed:
  "fetch_failed env_fetch_fails
     \<lparr>cfg = sample_config\<lparr>stats := \<lparr>completed = 0, points = 0, errors = e\<rparr>\<rparr>,
      consecutiveErrors = n, disk = d, trace = t\<rparr>"
  by (simp add: fetch_failed_def worker_eval sample_eval)

lemma fetch_fails_run:
  "0 \<le> e \<Longrightarrow> e + int k \<le> 100 \<Longrightarrow>
   all_fetch_failed sample_role (replicate k env_fetch_fails)
     \<lparr>cfg = sample_config\<lparr>stats := \<lparr>completed = 0, points = 0, errors = e\<rparr>\<rparr>,
      consecutiveErrors = n, disk = d, trace = t\<rparr>"
proof (induction k arbitrary: e n t)
  case 0
  then show ?case by simp
next
  case (Suc k)
  from Suc.prems have r: "\<bar>e\<bar> \<le> 2 ^ 53 \<and> \<bar>e + 1\<bar> \<le> 2 ^ 53" by simp
  from Suc.prems have "0 \<le> e + 1" "e + 1 + int k \<le> 100" by simp_all
  from Suc.IH[OF this] r show ?case
    by (simp add: fetch_fails_step fetch_fails_failed)
qed

text \<open>
  C2. \<open>workerLoop\<close> counts consecutive failures and backs off at the tenth, as the claim says,
  when the failures are failed polls: the counter goes on from where it stands, and when it
  reaches ten the loop sleeps \<open>ERROR_BACKOFF_MS\<close> once and the counter is zero (second part).
  But the loop sets the counter to zero as soon as \<^verbatim>\<open>fetchWork\<close> has returned a work item,
  before the item is processed and submitted. So in a run of passes that each fail after a
  successful poll, however long, every failure is reported as \<^verbatim>\<open>Worker error (1/10)\<close>, the
  counter stands at 1 after each pass, and the loop never backs off, while the cumulative
  error count grows by one per pass (first part). Ten consecutive refused submissions are ten
  consecutive failures without a backoff; one refused submission followed by nine failed
  polls, on the other hand, is ten consecutive failures with the backoff at the tenth.
\<close>

theorem late_failures_never_back_off:
  "(envs \<noteq> [] \<and> all_failed_after_work ri envs st \<longrightarrow>
      (case cycles ri envs st of
         None \<Rightarrow> False
       | Some st' \<Rightarrow>
           consecutiveErrors st' = 1
           \<and> backoffs (trace st') = backoffs (trace st)
           \<and> worker_errors (drop (length (trace st)) (trace st')) = replicate (length envs) 1
           \<and> errors (stats (cfg st')) = errors (stats (cfg st)) + int (length envs)))
   \<and> (envs' \<noteq> [] \<and> all_fetch_failed ri envs' s \<and> consecutiveErrors s + length envs' = 10 \<longrightarrow>
      (case cycles ri envs' s of
         None \<Rightarrow> False
       | Some s' \<Rightarrow>
           consecutiveErrors s' = 0
           \<and> backoffs (trace s') = backoffs (trace s) + 1
           \<and> errors (stats (cfg s')) = errors (stats (cfg s)) + int (length envs')))"
proof (intro conjI impI)
  assume a: "envs \<noteq> [] \<and> all_failed_after_work ri envs st"
  from late_failures_run[of ri envs st] a obtain st' new where
    "cycles ri envs st = Some st'" "consecutiveErrors st' = 1"
    "backoffs (trace st') = backoffs (trace st)"
    "trace st' = trace st @ new" "worker_errors new = replicate (length envs) 1"
    "errors (stats (cfg st')) = errors (stats (cfg st)) + int (length envs)" by blast
  then show "case cycles ri envs st of
         None \<Rightarrow> False
       | Some st' \<Rightarrow>
           consecutiveErrors st' = 1
           \<and> backoffs (trace st') = backoffs (trace st)
           \<and> worker_errors (drop (length (trace st)) (trace st')) = replicate (length envs) 1
           \<and> errors (stats (cfg st')) = errors (stats (cfg st)) + int (length envs)"
    by simp
next
  assume a: "envs' \<noteq> [] \<and> all_fetch_failed ri envs' s \<and> consecutiveErrors s + length envs' = 10"
  from fetch_failures_backoff[of ri envs' s] a
  show "case cycles ri envs' s of
         None \<Rightarrow> False
       | Some s' \<Rightarrow>
           consecutiveErrors s' = 0
           \<and> backoffs (trace s') = backoffs (trace s) + 1
           \<and> errors (stats (cfg s')) = errors (stats (cfg s)) + int (length envs')"
    by auto
qed

theorem late_failures_never_back_off_witness:
  "all_failed_after_work sample_role (replicate 10 env_submit_refused) (sample_state 0)
   \<and> (case cycles sample_role (replicate 10 env_submit_refused) (sample_state 0) of
        None \<Rightarrow> False
      | Some st' \<Rightarrow>
          consecutiveErrors st' = 1 \<and> backoffs (trace st') = 0
          \<and> worker_errors (trace st') = [1, 1, 1, 1, 1, 1, 1, 1, 1, 1]
          \<and> errors (stats (cfg st')) = 10)
   \<and> all_fetch_failed sample_role (replicate 10 env_fetch_fails) (sample_state 0)
   \<and> (case cycles sample_role (replicate 10 env_fetch_fails) (sample_state 0) of
        None \<Rightarrow> False
      | Some s' \<Rightarrow>
          consecutiveErrors s' = 0 \<and> backoffs (trace s') = 1
          \<and> errors (stats (cfg s')) = 10)
   \<and> (case cycles sample_role (env_submit_refused # replicate 9 env_fetch_fails) (sample_state 0) of
        None \<Rightarrow> False
      | Some s' \<Rightarrow>
          consecutiveErrors s' = 0 \<and> backoffs (trace s') = 1
          \<and> errors (stats (cfg s')) = 10)"
proof -
  have s: "sample_state 0 =
             \<lparr>cfg = sample_config\<lparr>stats := \<lparr>completed = 0, points = 0, errors = 0\<rparr>\<rparr>,
              consecutiveErrors = 0, disk = None, trace = []\<rparr>"
    by (simp add: sample_state_def sample_config_def)
  define ev where "ev = [HttpGetWork (js ''agent-1''), Log (WorkReceived (JString (js ''t1''))),
                        Log (InfoSending (js ''Google Gemini (free)'')),
                        HttpPostBackend (js ''gemini''), Log OkParsed,
                        HttpPostSubmit (JString (js ''t1'')) (JArray [JNumber 1]),
                        Log (ErrSubmit (JString (js ''t1''))
                               (js ''API POST /api/agents/submit failed (500): down'')),
                        Log (ErrWorker 1 (js ''API POST /api/agents/submit failed (500): down'')),
                        Sleep 5000]"
  define s1 where "s1 = \<lparr>cfg = sample_config\<lparr>stats := \<lparr>completed = 0, points = 0, errors = 1\<rparr>\<rparr>,
                         consecutiveErrors = 1, disk = None, trace = ev\<rparr>"
  have 1: "all_failed_after_work sample_role (replicate 10 env_submit_refused) (sample_state 0)"
    unfolding s by (rule refused_run) simp_all
  have 2: "all_fetch_failed sample_role (replicate 10 env_fetch_fails) (sample_state 0)"
    unfolding s by (rule fetch_fails_run) simp_all
  have 3: "consecutiveErrors (sample_state 0) = 0" "trace (sample_state 0) = []"
    "errors (stats (cfg (sample_state 0))) = 0" "backoffs [] = 0"
    by (simp_all add: sample_state_def sample_config_def backoffs_def)
  have 4: "replicate 10 (1::nat) = [1, 1, 1, 1, 1, 1, 1, 1, 1, 1]"
    by (simp add: numeral_eq_Suc)
  have 5: "cycle sample_role env_submit_refused (sample_state 0) = Some s1"
    unfolding s s1_def ev_def by (simp add: submit_refused_step)
  have 6: "all_fetch_failed sample_role (replicate 9 env_fetch_fails) s1"
    unfolding s1_def by (rule fetch_fails_run) simp_all
  have 7: "consecutiveErrors s1 + length (replicate 9 env_fetch_fails) = 10"
    "backoffs (trace s1) = 0" "errors (stats (cfg s1)) = 1"
    by (simp_all add: s1_def ev_def backoffs_def ERROR_BACKOFF_MS_def)
  have 8: "cycles sample_role (env_submit_refused # replicate 9 env_fetch_fails) (sample_state 0)
           = cycles sample_role (replicate 9 env_fetch_fails) s1"
    by (simp add: 5)
  from late_failures_never_back_off[of "replicate 10 env_submit_refused" sample_role
      "sample_state 0" "replicate 10 env_fetch_fails" "sample_state 0"] 1 2 3 4
  have a: "(case cycles sample_role (replicate 10 env_submit_refused) (sample_state 0) of
        None \<Rightarrow> False
      | Some st' \<Rightarrow>
          consecutiveErrors st' = 1 \<and> backoffs (trace st') = 0
          \<and> worker_errors (trace st') = [1, 1, 1, 1, 1, 1, 1, 1, 1, 1]
          \<and> errors (stats (cfg st')) = 10)
   \<and> (case cycles sample_role (replicate 10 env_fetch_fails) (sample_state 0) of
        None \<Rightarrow> False
      | Some s' \<Rightarrow>
          consecutiveErrors s' = 0 \<and> backoffs (trace s') = 1
          \<and> errors (stats (cfg s')) = 10)"
    by (auto split: option.splits)
  from late_failures_never_back_off[of "replicate 10 env_submit_refused" sample_role
      "sample_state 0" "replicate 9 env_fetch_fails" s1] 6 7
  have b: "case cycles sample_role (replicate 9 env_fetch_fails) s1 of
        None \<Rightarrow> False
      | Some s' \<Rightarrow>
          consecutiveErrors s' = 0 \<and> backoffs (trace s') = 1
          \<and> errors (stats (cfg s')) = 10"
    by (auto split: option.splits)
  from 1 2 a b show ?thesis unfolding 8 by simp
qed

section \<open>A pass with a work item\<close>

text \<open>
  A work item whose receipt cannot be logged, because its task id or the beginning of its prompt
  cannot be converted to a string, fails the pass before \<open>processWithAI\<close> is called:
  nothing is sent to a backend and nothing is submitted (\<open>unlogged_item_fails\<close>).
\<close>

lemma adapter_yields_result:
  assumes "adapter_yields c penv reply s"
  shows "\<exists>b. AI_BACKENDS (model c) = Some b
           \<and> processWithAI c p penv reply =
               (if truthy (extractJSON s)
                then (Result (extractJSON s),
                      [Log (InfoSending (label b)), HttpPostBackend (model c), Log OkParsed])
                else (Result (JObject [(js ''_raw_text'', JString s)]),
                      [Log (InfoSending (label b)), HttpPostBackend (model c), Log WarnNoExtract]))"
  using assms
  by (auto simp: adapter_yields_def processWithAI_def Let_def
      split: option.splits http_reply.splits)

lemma js_add_range: "js_add (2 ^ 53 - 1) 1 = Some (2 ^ 53) \<and> js_add (2 ^ 53) 1 = None"
  by (simp add: js_add_def exact_sum_def)

lemma unlogged_item_fails:
  assumes "fetchWork (cfg st) (fetch_reply env) = Inr work"
    and "work_task_id work = Some taskId"
    and "received_line taskId (task_prompt work) = Some m"
    and "exact_sum (errors (stats (cfg st))) 1"
  shows "cycle ri env st =
           Some (st\<lparr>consecutiveErrors := 1,
                    cfg := (cfg st)\<lparr>stats := (stats (cfg st))\<lparr>errors := errors (stats (cfg st)) + 1\<rparr>\<rparr>,
                    trace := trace st @ [HttpGetWork (agent_id (cfg st)), Log (ErrWorker 1 m),
                                         Sleep POLL_INTERVAL_MS]\<rparr>)"
  using assms
  by (simp add: cycle_def try_block_def catch_block_def js_add_def emit_def Let_def
      MAX_CONSECUTIVE_ERRORS_def)

lemma result_pass:
  assumes "fetchWork (cfg st) (fetch_reply env) = Inr work"
    and "work_task_id work = Some taskId"
    and "received_line taskId (task_prompt work) = None"
    and "processWithAI (cfg st) (task_prompt work) (environ env) (ai_reply env) = (Result result, es)"
    and "safe_counts ri (cfg st)"
  shows "\<exists>st'. cycle ri env st = Some st'
           \<and> HttpPostSubmit taskId result \<in> set (trace st')
           \<and> set es \<subseteq> set (trace st')
           \<and> last (trace st') = Sleep POLL_INTERVAL_MS
           \<and> (submit_accepted env \<longrightarrow>
                completed (stats (cfg st')) = completed (stats (cfg st)) + 1
                \<and> points (stats (cfg st')) = points (stats (cfg st)) + role_points ri
                \<and> WriteFile (stringify_config
                     ((cfg st)\<lparr>stats := (stats (cfg st))\<lparr>
                        completed := completed (stats (cfg st)) + 1,
                        points := points (stats (cfg st)) + role_points ri\<rparr>\<rparr>)) \<in> set (trace st')
                \<and> (write_outcome env = WriteOk \<longrightarrow>
                     cfg st' = (cfg st)\<lparr>stats := (stats (cfg st))\<lparr>
                        completed := completed (stats (cfg st)) + 1,
                        points := points (stats (cfg st)) + role_points ri\<rparr>\<rparr>
                     \<and> disk st' = Some (stringify_config (cfg st'))
                     \<and> loadConfig (disk st') = config_json (cfg st')
                     \<and> consecutiveErrors st' = 0))"
  using assms
  by (auto simp: cycle_def try_block_def emit_def Let_def submitResult_def saveConfig_def
      catch_block_def submit_accepted_def load_after_save safe_counts_def js_add_def
      split: sum.splits write_result.splits)

text \<open>
  C3, as stated, fails: when extraction yields no value the pass is not a no-op.
  \<open>processWithAI\<close> wraps the raw text and the loop submits the wrapper. With the backend
  answering \<^verbatim>\<open>not json at all\<close>, the pass submits \<^verbatim>\<open>{_raw_text: "not json at all"}\<close> for
  task \<^verbatim>\<open>t1\<close> and counts it as completed.
\<close>

theorem extraction_failure_counterexample:
  "adapter_yields sample_config (environ env_raw_text) (ai_reply env_raw_text) (js ''not json at all'')
   \<and> \<not> truthy (extractJSON (js ''not json at all''))
   \<and> (case cycle sample_role env_raw_text (sample_state 0) of
        None \<Rightarrow> False
      | Some st' \<Rightarrow>
          HttpPostSubmit (JString (js ''t1''))
            (JObject [(js ''_raw_text'', JString (js ''not json at all''))]) \<in> set (trace st')
          \<and> completed (stats (cfg st')) = 1)"
proof -
  have "adapter_yields sample_config (environ env_raw_text) (ai_reply env_raw_text)
          (js ''not json at all'')"
    by (simp add: adapter_yields_def worker_eval sample_eval json_eval)
  moreover have "\<not> truthy (extractJSON (js ''not json at all''))"
    by (simp add: extractJSON_not_json)
  moreover have "case cycle sample_role env_raw_text (sample_state 0) of
        None \<Rightarrow> False
      | Some st' \<Rightarrow>
          HttpPostSubmit (JString (js ''t1''))
            (JObject [(js ''_raw_text'', JString (js ''not json at all''))]) \<in> set (trace st')
          \<and> completed (stats (cfg st')) = 1"
    by (simp add: worker_eval sample_eval json_eval extract_eval Let_def)
  ultimately show ?thesis by blast
qed

text \<open>
  C3, amended. For every pass in which a work item is received and its receipt is logged (the
  line with the task id and the beginning of the prompt can be built), the backend adapter
  yields raw text and extraction yields no (truthy) value, with counters in the range of exact
  addition: the loop does not crash, it logs the warning and submits the raw text to the
  coordinator, wrapped as \<^verbatim>\<open>{_raw_text: text}\<close>, like any other result. The extraction
  failure itself counts toward no error counter: when the submission is accepted and the
  configuration is saved, the consecutive-error counter is zero, the cumulative error count is
  unchanged and the item counts as completed.
\<close>

theorem extraction_failure_submits_raw:
  "fetchWork (cfg st) (fetch_reply env) = Inr work \<and> work_task_id work = Some taskId
   \<and> received_line taskId (task_prompt work) = None
   \<and> adapter_yields (cfg st) (environ env) (ai_reply env) s \<and> \<not> truthy (extractJSON s)
   \<and> safe_counts ri (cfg st) \<longrightarrow>
     (case cycle ri env st of
        None \<Rightarrow> False
      | Some st' \<Rightarrow>
          Log WarnNoExtract \<in> set (trace st')
          \<and> HttpPostSubmit taskId (JObject [(js ''_raw_text'', JString s)]) \<in> set (trace st')
          \<and> (submit_accepted env \<and> write_outcome env = WriteOk \<longrightarrow>
               consecutiveErrors st' = 0
               \<and> errors (stats (cfg st')) = errors (stats (cfg st))
               \<and> completed (stats (cfg st')) = completed (stats (cfg st)) + 1))"
proof (intro impI)
  assume a: "fetchWork (cfg st) (fetch_reply env) = Inr work \<and> work_task_id work = Some taskId
   \<and> received_line taskId (task_prompt work) = None
   \<and> adapter_yields (cfg st) (environ env) (ai_reply env) s \<and> \<not> truthy (extractJSON s)
   \<and> safe_counts ri (cfg st)"
  from a have ay: "adapter_yields (cfg st) (environ env) (ai_reply env) s" by simp
  from adapter_yields_result[OF ay, of "task_prompt work"]
  obtain b :: backend where "processWithAI (cfg st) (task_prompt work) (environ env) (ai_reply env) =
      (if truthy (extractJSON s)
       then (Result (extractJSON s),
             [Log (InfoSending (label b)), HttpPostBackend (model (cfg st)), Log OkParsed])
       else (Result (JObject [(js ''_raw_text'', JString s)]),
             [Log (InfoSending (label b)), HttpPostBackend (model (cfg st)), Log WarnNoExtract]))"
    by blast
  with a have p: "processWithAI (cfg st) (task_prompt work) (environ env) (ai_reply env) =
      (Result (JObject [(js ''_raw_text'', JString s)]),
       [Log (InfoSending (label b)), HttpPostBackend (model (cfg st)), Log WarnNoExtract])"
    by simp
  from result_pass[where taskId = taskId and ri = ri, OF _ _ _ p] a
  show "case cycle ri env st of
        None \<Rightarrow> False
      | Some st' \<Rightarrow>
          Log WarnNoExtract \<in> set (trace st')
          \<and> HttpPostSubmit taskId (JObject [(js ''_raw_text'', JString s)]) \<in> set (trace st')
          \<and> (submit_accepted env \<and> write_outcome env = WriteOk \<longrightarrow>
               consecutiveErrors st' = 0
               \<and> errors (stats (cfg st')) = errors (stats (cfg st))
               \<and> completed (stats (cfg st')) = completed (stats (cfg st)) + 1)"
    by auto
qed

lemma sample_work:
  "fetchWork sample_config (Response 200 work_body) =
     Inr (JObject [(js ''task_id'', JString (js ''t1'')), (js ''prompt'', JString (js ''p''))])"
  by (simp add: worker_eval sample_eval json_eval)

lemma sample_work_task:
  "work_task_id (JObject [(js ''task_id'', JString (js ''t1'')), (js ''prompt'', JString (js ''p''))])
     = Some (JString (js ''t1''))
   \<and> received_line (JString (js ''t1'')) (task_prompt
        (JObject [(js ''task_id'', JString (js ''t1'')), (js ''prompt'', JString (js ''p''))])) = None"
  by (simp add: worker_eval)

theorem extraction_failure_submits_raw_witness:
  "adapter_yields sample_config (environ env_raw_text) (ai_reply env_raw_text) (js ''not json at all'')
   \<and> \<not> truthy (extractJSON (js ''not json at all''))
   \<and> submit_accepted env_raw_text \<and> write_outcome env_raw_text = WriteOk
   \<and> (case cycle sample_role env_raw_text (sample_state 0) of
        None \<Rightarrow> False
      | Some st' \<Rightarrow>
          Log WarnNoExtract \<in> set (trace st')
          \<and> HttpPostSubmit (JString (js ''t1''))
               (JObject [(js ''_raw_text'', JString (js ''not json at all''))]) \<in> set (trace st')
          \<and> consecutiveErrors st' = 0
          \<and> errors (stats (cfg st')) = 0
          \<and> completed (stats (cfg st')) = 1)"
proof -
  have 1: "adapter_yields (cfg (sample_state 0)) (environ env_raw_text) (ai_reply env_raw_text)
          (js ''not json at all'')"
    by (simp add: adapter_yields_def worker_eval sample_eval json_eval)
  have 2: "\<not> truthy (extractJSON (js ''not json at all''))"
    by (simp add: extractJSON_not_json)
  have 3: "fetchWork (cfg (sample_state 0)) (fetch_reply env_raw_text) =
     Inr (JObject [(js ''task_id'', JString (js ''t1'')), (js ''prompt'', JString (js ''p''))])"
    using sample_work by (simp add: sample_state_def env_raw_text_def)
  have 4: "submit_accepted env_raw_text \<and> write_outcome env_raw_text = WriteOk"
    by (simp add: submit_accepted_def worker_eval sample_eval json_eval)
  have 5: "cfg (sample_state 0) = sample_config" by (simp add: sample_state_def)
  have 6: "errors (stats sample_config) = 0 \<and> completed (stats sample_config) = 0"
    by (simp add: sample_config_def)
  have 7: "safe_counts sample_role sample_config"
    by (simp add: safe_counts_def exact_sum_def sample_config_def sample_role_def)
  from extraction_failure_submits_raw[of "sample_state 0" env_raw_text
      "JObject [(js ''task_id'', JString (js ''t1'')), (js ''prompt'', JString (js ''p''))]"
      "JString (js ''t1'')" "js ''not json at all''" sample_role]
    1 2 3 4 7 sample_work_task
  show ?thesis unfolding 5 using 6 by (auto split: option.splits)
qed

section \<open>Accepted submissions and missing credentials\<close>




text \<open>
  C6. Each of the four backend identifiers has an adapter. With one of them configured and no
  credential at hand, neither in the configuration (the key absent, \<^verbatim>\<open>null\<close> or the empty
  string) nor in the environment variable of the provider (unset or empty),
  \<open>processWithAI\<close> yields no result whatever the provider would reply and issues no network
  call; with a valid role it logs exactly the missing-credential error.
\<close>

theorem missing_credential_no_call:
  "(\<forall>m \<in> set AI_BACKEND_KEYS. AI_BACKENDS m \<noteq> None)
   \<and> (model c \<in> set AI_BACKEND_KEYS \<and> AI_BACKENDS (model c) = Some b
       \<and> api_key_for c penv b = None \<longrightarrow>
         fst (processWithAI c p penv reply) = NoResult
         \<and> (\<forall>e \<in> set (snd (processWithAI c p penv reply)). \<not> is_network_call e)
         \<and> (ROLE_PROMPTS (role c) \<longrightarrow>
              processWithAI c p penv reply = (NoResult, [Log (ErrNoApiKey (label b) (envKey b))])))
   \<and> (api_key_for c penv b = None \<longleftrightarrow>
        (ai_api_key c = KeyAbsent \<or> ai_api_key c = KeyNull \<or> ai_api_key c = KeyStr [])
        \<and> (penv (envKey b) = None \<or> penv (envKey b) = Some []))"
proof (intro conjI)
  show "\<forall>m \<in> set AI_BACKEND_KEYS. AI_BACKENDS m \<noteq> None"
    by (simp add: AI_BACKEND_KEYS_def AI_BACKENDS_def js_def)
next
  show "model c \<in> set AI_BACKEND_KEYS \<and> AI_BACKENDS (model c) = Some b
       \<and> api_key_for c penv b = None \<longrightarrow>
         fst (processWithAI c p penv reply) = NoResult
         \<and> (\<forall>e \<in> set (snd (processWithAI c p penv reply)). \<not> is_network_call e)
         \<and> (ROLE_PROMPTS (role c) \<longrightarrow>
              processWithAI c p penv reply = (NoResult, [Log (ErrNoApiKey (label b) (envKey b))]))"
  proof
    assume a: "model c \<in> set AI_BACKEND_KEYS \<and> AI_BACKENDS (model c) = Some b
       \<and> api_key_for c penv b = None"
    then have m: "model c \<noteq> js ''openclaw''" "model c \<noteq> js ''none''"
      by (auto simp: AI_BACKEND_KEYS_def js_def)
    with a show "fst (processWithAI c p penv reply) = NoResult
         \<and> (\<forall>e \<in> set (snd (processWithAI c p penv reply)). \<not> is_network_call e)
         \<and> (ROLE_PROMPTS (role c) \<longrightarrow>
              processWithAI c p penv reply = (NoResult, [Log (ErrNoApiKey (label b) (envKey b))]))"
      by (simp add: processWithAI_def)
  qed
next
  show "api_key_for c penv b = None \<longleftrightarrow>
        (ai_api_key c = KeyAbsent \<or> ai_api_key c = KeyNull \<or> ai_api_key c = KeyStr [])
        \<and> (penv (envKey b) = None \<or> penv (envKey b) = Some [])"
    by (auto simp: api_key_for_def split: key_field.splits option.splits if_splits)
qed

theorem missing_credential_no_call_witness:
  "js ''claude'' \<in> set AI_BACKEND_KEYS
   \<and> AI_BACKENDS (js ''claude'') =
       Some \<lparr>label = js ''Anthropic Claude'', envKey = js ''ANTHROPIC_API_KEY'',
             extractText = claude_text\<rparr>
   \<and> processWithAI (sample_config\<lparr>model := js ''claude'', ai_api_key := KeyNull\<rparr>)
       (Some (JString (js ''p''))) (\<lambda>k. None) (Response 200 (js ''{}''))
     = (NoResult, [Log (ErrNoApiKey (js ''Anthropic Claude'') (js ''ANTHROPIC_API_KEY''))])"
proof -
  let ?c = "sample_config\<lparr>model := js ''claude'', ai_api_key := KeyNull\<rparr>"
  let ?b = "\<lparr>label = js ''Anthropic Claude'', envKey = js ''ANTHROPIC_API_KEY'',
             extractText = claude_text\<rparr>"
  have 1: "model ?c \<in> set AI_BACKEND_KEYS" by (simp add: AI_BACKEND_KEYS_def)
  have 2: "AI_BACKENDS (model ?c) = Some ?b" by (simp add: AI_BACKENDS_def js_def)
  have 3: "api_key_for ?c (\<lambda>k. None) ?b = None" by (simp add: api_key_for_def)
  have 4: "ROLE_PROMPTS (role ?c)" by (simp add: ROLE_PROMPTS_def sample_config_def)
  from missing_credential_no_call[where c = ?c and b = ?b and penv = "\<lambda>k. None"
      and p = "Some (JString (js ''p''))" and reply = "Response 200 (js ''{}'')"] 1 2 3 4
  show ?thesis by simp
qed

section \<open>What reaches the configuration file\<close>

lemma submissions_append: "submissions (xs @ ys) = submissions xs + submissions ys"
  by (simp add: submissions_def)

lemma processWithAI_no_write: "WriteFile w \<notin> set (snd (processWithAI c p penv reply))"
  by (auto simp: processWithAI_def Let_def
      split: option.splits http_reply.splits json.splits)

lemma try_block_trace:
  assumes "try_block ri env st = Some (thrown, st1)"
  shows "\<exists>new. trace st1 = trace st @ new
           \<and> (submissions new = 0 \<longrightarrow> disk st1 = disk st)
           \<and> (thrown \<noteq> None \<and> write_outcome env = WriteOk \<longrightarrow> disk st1 = disk st)
           \<and> (\<forall>w. WriteFile w \<in> set new \<longrightarrow> w = stringify_config (cfg st1))"
proof -
  obtain r es where p:
    "processWithAI (cfg st) (task_prompt (projr (fetchWork (cfg st) (fetch_reply env))))
       (environ env) (ai_reply env) = (r, es)"
    by (cases "processWithAI (cfg st) (task_prompt (projr (fetchWork (cfg st) (fetch_reply env))))
       (environ env) (ai_reply env)")
  have nw: "\<And>w. WriteFile w \<notin> set es"
    using processWithAI_no_write[of _ "cfg st"
        "task_prompt (projr (fetchWork (cfg st) (fetch_reply env)))" "environ env" "ai_reply env"] p
    by simp
  from assms p nw show ?thesis
    by (auto simp: try_block_def Let_def emit_def submitResult_def saveConfig_def
        submissions_def
        split: sum.splits option.splits ai_result.splits if_splits write_result.splits)
qed

lemma pass_trace:
  assumes "cycle ri env st = Some st'"
  shows "\<exists>new. trace st' = trace st @ new
           \<and> (submissions new = 0 \<longrightarrow> disk st' = disk st)
           \<and> (pass_failed ri env st \<and> write_outcome env = WriteOk \<longrightarrow> disk st' = disk st)
           \<and> (\<forall>w. WriteFile w \<in> set new \<longrightarrow>
                 w = stringify_config ((cfg st')\<lparr>stats :=
                       (stats (cfg st'))\<lparr>errors := errors (stats (cfg st))\<rparr>\<rparr>))"
proof (cases "try_block ri env st")
  case None
  with assms show ?thesis by (simp add: cycle_def)
next
  case (Some p)
  obtain thrown st1 where p: "p = (thrown, st1)" by (cases p)
  from try_block_trace[OF Some[unfolded p]] obtain new where n:
    "trace st1 = trace st @ new" "submissions new = 0 \<longrightarrow> disk st1 = disk st"
    "thrown \<noteq> None \<and> write_outcome env = WriteOk \<longrightarrow> disk st1 = disk st"
    "\<forall>w. WriteFile w \<in> set new \<longrightarrow> w = stringify_config (cfg st1)"
    by (elim exE conjE) (rule that)
  have e: "errors (stats (cfg st1)) = errors (stats (cfg st))"
    by (rule try_block_frame(1)[OF Some[unfolded p]])
  show ?thesis
  proof (cases thrown)
    case None
    with assms Some p have st': "st' = emit [Sleep POLL_INTERVAL_MS] st1"
      by (simp add: cycle_def)
    have "trace st' = trace st @ (new @ [Sleep POLL_INTERVAL_MS])"
      by (simp add: st' emit_def n(1))
    moreover have "submissions (new @ [Sleep POLL_INTERVAL_MS]) = submissions new"
      by (simp add: submissions_def)
    moreover have "cfg st' = cfg st1" "disk st' = disk st1" by (simp_all add: st' emit_def)
    moreover have "(cfg st1)\<lparr>stats := (stats (cfg st1))\<lparr>errors := errors (stats (cfg st))\<rparr>\<rparr> = cfg st1"
      using e by simp
    moreover have "\<not> pass_failed ri env st" using Some p None by (simp add: pass_failed_def)
    ultimately show ?thesis using n by (intro exI[of _ "new @ [Sleep POLL_INTERVAL_MS]"]) auto
  next
    case (Some m)
    from assms \<open>try_block ri env st = Some p\<close> p Some
    obtain s where s: "catch_block m st1 = Some s" and st': "st' = emit [Sleep POLL_INTERVAL_MS] s"
      by (auto simp: cycle_def)
    define tail where "tail = drop (length (trace st1)) (trace st')"
    have tr: "trace st' = trace st1 @ tail" and sub: "submissions tail = 0"
      and nw: "\<forall>w. WriteFile w \<notin> set tail"
      and d: "disk st' = disk st1"
      and c: "(cfg st')\<lparr>stats := (stats (cfg st'))\<lparr>errors := errors (stats (cfg st1))\<rparr>\<rparr> = cfg st1"
      unfolding tail_def st' using s
      by (auto simp: catch_block_def emit_def Let_def submissions_def js_add_def
          split: if_splits)
    have "trace st' = trace st @ (new @ tail)" by (simp add: tr n(1))
    moreover have "submissions (new @ tail) = submissions new"
      by (simp add: submissions_append sub)
    ultimately show ?thesis using n nw d c e Some
      by (intro exI[of _ "new @ tail"]) auto
  qed
qed

lemma pass_submissions:
  assumes "cycle ri env st = Some st'"
  shows "submissions (trace st) \<le> submissions (trace st')"
    and "submissions (trace st') = submissions (trace st) \<Longrightarrow> disk st' = disk st"
proof -
  from pass_trace[OF assms] obtain new where n: "trace st' = trace st @ new"
    "submissions new = 0 \<longrightarrow> disk st' = disk st" by (elim exE conjE) (rule that)
  show "submissions (trace st) \<le> submissions (trace st')"
    by (simp add: n(1) submissions_append)
  show "disk st' = disk st" if "submissions (trace st') = submissions (trace st)"
    using that n by (simp add: submissions_append)
qed

lemma run_submissions_mono:
  "cycles ri envs st = Some st' \<Longrightarrow> submissions (trace st) \<le> submissions (trace st')"
proof (induction envs arbitrary: st)
  case Nil
  then show ?case by simp
next
  case (Cons env envs)
  then obtain s1 where s1: "cycle ri env st = Some s1" "cycles ri envs s1 = Some st'"
    by (auto split: option.splits)
  from pass_submissions(1)[OF s1(1)] Cons.IH[OF s1(2)] show ?case by simp
qed

lemma run_without_submission:
  "cycles ri envs st = Some st' \<Longrightarrow> submissions (trace st') = submissions (trace st) \<Longrightarrow>
   disk st' = disk st
   \<and> errors (stats (cfg st')) = errors (stats (cfg st)) + int (failed_passes ri envs st)"
proof (induction envs arbitrary: st)
  case Nil
  then show ?case by simp
next
  case (Cons env envs)
  then obtain s1 where s1: "cycle ri env st = Some s1" "cycles ri envs s1 = Some st'"
    by (auto split: option.splits)
  from pass_submissions(1)[OF s1(1)] run_submissions_mono[OF s1(2)] Cons.prems(2)
  have eq: "submissions (trace s1) = submissions (trace st)"
    "submissions (trace st') = submissions (trace s1)" by simp_all
  from pass_submissions(2)[OF s1(1) eq(1)] have "disk s1 = disk st" .
  moreover from Cons.IH[OF s1(2) eq(2)] have "disk st' = disk s1"
    "errors (stats (cfg st')) = errors (stats (cfg s1)) + int (failed_passes ri envs s1)"
    by simp_all
  moreover from pass_errors[OF s1(1)] have
    "errors (stats (cfg s1)) = errors (stats (cfg st)) + (if pass_failed ri env st then 1 else 0)" .
  ultimately show ?case using s1(1) by simp
qed

text \<open>
  C10. Within the loop the configuration file changes only in a pass with an accepted
  submission. A failing pass raises the cumulative error count of the configuration in memory
  by one and hands no configuration holding the raised count to \<^verbatim>\<open>writeFileSync\<close>; unless
  the failure is the write itself, it leaves the file untouched. Over a run of passes without an
  accepted submission the file is unchanged, so a restart loads what it would have loaded before
  the run, while the count in memory has grown by the number of failed passes.
\<close>

theorem errors_not_persisted:
  "(cycle ri env st = Some st' \<longrightarrow>
      (submissions (trace st') = submissions (trace st) \<longrightarrow> disk st' = disk st)
      \<and> (pass_failed ri env st \<longrightarrow>
           errors (stats (cfg st')) = errors (stats (cfg st)) + 1
           \<and> (write_outcome env = WriteOk \<longrightarrow> disk st' = disk st)
           \<and> (\<forall>w. WriteFile w \<in> set (drop (length (trace st)) (trace st')) \<longrightarrow>
                 w = stringify_config ((cfg st')\<lparr>stats :=
                       (stats (cfg st'))\<lparr>errors := errors (stats (cfg st))\<rparr>\<rparr>))))
   \<and> (cycles ri envs st = Some st'' \<and> submissions (trace st'') = submissions (trace st) \<longrightarrow>
        disk st'' = disk st
        \<and> loadConfig (disk st'') = loadConfig (disk st)
        \<and> errors (stats (cfg st'')) = errors (stats (cfg st)) + int (failed_passes ri envs st))"
proof (intro conjI)
  show "cycle ri env st = Some st' \<longrightarrow>
      (submissions (trace st') = submissions (trace st) \<longrightarrow> disk st' = disk st)
      \<and> (pass_failed ri env st \<longrightarrow>
           errors (stats (cfg st')) = errors (stats (cfg st)) + 1
           \<and> (write_outcome env = WriteOk \<longrightarrow> disk st' = disk st)
           \<and> (\<forall>w. WriteFile w \<in> set (drop (length (trace st)) (trace st')) \<longrightarrow>
                 w = stringify_config ((cfg st')\<lparr>stats :=
                       (stats (cfg st'))\<lparr>errors := errors (stats (cfg st))\<rparr>\<rparr>)))"
  proof
    assume c: "cycle ri env st = Some st'"
    from pass_trace[OF c] obtain new where n: "trace st' = trace st @ new"
      "pass_failed ri env st \<and> write_outcome env = WriteOk \<longrightarrow> disk st' = disk st"
      "\<forall>w. WriteFile w \<in> set new \<longrightarrow>
          w = stringify_config ((cfg st')\<lparr>stats :=
                (stats (cfg st'))\<lparr>errors := errors (stats (cfg st))\<rparr>\<rparr>)"
      by (elim exE conjE) (rule that)
    from n(1) have "drop (length (trace st)) (trace st') = new" by simp
    with n pass_submissions(2)[OF c] pass_errors[OF c]
    show "(submissions (trace st') = submissions (trace st) \<longrightarrow> disk st' = disk st)
      \<and> (pass_failed ri env st \<longrightarrow>
           errors (stats (cfg st')) = errors (stats (cfg st)) + 1
           \<and> (write_outcome env = WriteOk \<longrightarrow> disk st' = disk st)
           \<and> (\<forall>w. WriteFile w \<in> set (drop (length (trace st)) (trace st')) \<longrightarrow>
                 w = stringify_config ((cfg st')\<lparr>stats :=
                       (stats (cfg st'))\<lparr>errors := errors (stats (cfg st))\<rparr>\<rparr>)))"
      by simp
  qed
next
  show "cycles ri envs st = Some st'' \<and> submissions (trace st'') = submissions (trace st) \<longrightarrow>
        disk st'' = disk st
        \<and> loadConfig (disk st'') = loadConfig (disk st)
        \<and> errors (stats (cfg st'')) = errors (stats (cfg st)) + int (failed_passes ri envs st)"
    using run_without_submission[of ri envs st st''] by auto
qed

theorem errors_not_persisted_witness:
  "pass_failed sample_role env_fetch_fails (sample_state 0)
   \<and> write_outcome env_fetch_fails = WriteOk
   \<and> (case cycle sample_role env_fetch_fails (sample_state 0) of
        None \<Rightarrow> False
      | Some st' \<Rightarrow>
          submissions (trace st') = 0 \<and> disk st' = None \<and> errors (stats (cfg st')) = 1)
   \<and> (case cycles sample_role [env_fetch_fails, env_no_work, env_fetch_fails] (sample_state 0) of
        None \<Rightarrow> False
      | Some st'' \<Rightarrow>
          submissions (trace st'') = 0 \<and> disk st'' = None
          \<and> loadConfig (disk st'') = JNull \<and> errors (stats (cfg st'')) = 2)"
proof -
  let ?envs = "[env_fetch_fails, env_no_work, env_fetch_fails]"
  have 1: "pass_failed sample_role env_fetch_fails (sample_state 0)"
    by (simp add: pass_failed_def worker_eval sample_eval)
  have 2: "write_outcome env_fetch_fails = WriteOk" by (simp add: env_fetch_fails_def)
  have "\<exists>s. cycle sample_role env_fetch_fails (sample_state 0) = Some s
            \<and> submissions (trace s) = 0"
    by (simp add: worker_eval sample_eval submissions_def)
  then obtain s1 where 3: "cycle sample_role env_fetch_fails (sample_state 0) = Some s1"
    "submissions (trace s1) = 0" by blast
  have "\<exists>s. cycles sample_role ?envs (sample_state 0) = Some s \<and> submissions (trace s) = 0"
    by (simp add: worker_eval sample_eval submissions_def)
  then obtain s3 where 4: "cycles sample_role ?envs (sample_state 0) = Some s3"
    "submissions (trace s3) = 0" by blast
  have 5: "failed_passes sample_role ?envs (sample_state 0) = 2"
    by (simp add: pass_failed_def worker_eval sample_eval)
  have 6: "submissions (trace (sample_state 0)) = 0" "disk (sample_state 0) = None"
    "errors (stats (cfg (sample_state 0))) = 0"
    by (simp_all add: sample_state_def sample_config_def submissions_def)
  have 7: "loadConfig None = JNull" by (simp add: loadConfig_def)
  from errors_not_persisted[of sample_role env_fetch_fails "sample_state 0" s1 ?envs s3]
    1 2 3 4 5 6 7
  show ?thesis by simp
qed


section \<open>fetchWork and error replies\<close>

text \<open>
  C5. A 404 reply and an empty 204 reply are an empty result, and an error reply whose message mentions neither 404 nor
  204 is thrown on; but \<open>fetchWork\<close> looks for the digits anywhere in the message, which
  holds the agent id and the body of the reply. A 500 reply whose body mentions 404, and any
  error reply to an agent whose id holds 204, are taken for "no work" as well.
\<close>

theorem fetchWork_swallows_errors:
  "fetchWork sample_config (Response 404 (js ''Not Found'')) = Inr JNull
   \<and> fetchWork sample_config (Response 204 []) = Inr JNull
   \<and> fetchWork sample_config (Response 503 (js ''Service Unavailable''))
       = Inl (js ''API GET /api/agents/agent-1/work failed (503): Service Unavailable'')
   \<and> \<not> resp_ok 500
   \<and> fetchWork sample_config (Response 500 (js ''upstream returned 404'')) = Inr JNull
   \<and> fetchWork (sample_config\<lparr>agent_id := js ''agent-2040''\<rparr>)
        (Response 503 (js ''Service Unavailable'')) = Inr JNull"
  by (simp add: worker_eval sample_eval)

end
